theory Spec2Isabelle
  imports Main
begin

section \<open>The exec\_ts tool adapter of agent0\<close>

text \<open>
  The repository's one piece of logic is \<^verbatim>\<open>executeTypeScript\<close> (tools/exec\_ts.ts):
  it creates an E2B sandbox, installs npm packages, writes input files, forwards a
  filtered environment, runs the program, parses a JSON result out of stdout, reads
  the files the program left behind, and kills the sandbox. Two versions of the file
  are in the sources: one with timing instrumentation (the first, lines 59--200 of
  \<^verbatim>\<open>src/unnamed/part_000\<close>) and one without (lines 259--385).

  The sandbox SDK, the clock, the console, \<^verbatim>\<open>process.env\<close> and the \<^verbatim>\<open>JSON\<close> object are not
  code of the repository. They are the fields of a record \<open>host\<close>, and every theorem
  holds for every host. Each SDK function of a host sees the whole history of calls
  made so far, so that any sequence of successes and failures is some host.
\<close>

subsection \<open>JavaScript values\<close>

text \<open>
  Values that cross the adapter (\<^verbatim>\<open>args\<close>, \<^verbatim>\<open>result\<close>, \<^verbatim>\<open>execution.error\<close>) are JSON
  values: the tool call delivers \<^verbatim>\<open>args\<close> as parsed JSON, and \<^verbatim>\<open>result\<close> is what
  \<^verbatim>\<open>JSON.parse\<close> returned. Numbers are restricted to integers. \<^verbatim>\<open>undefined\<close> is \<open>None\<close>
  of an option type. An object is the list of its entries in insertion order.
\<close>

datatype json =
  JNull
  | JBool bool
  | JNumber int
  | JString string
  | JArray "json list"
  | JObject "(string \<times> json) list"

text \<open>\<^verbatim>\<open>if (args)\<close>: JavaScript's ToBoolean. Objects and arrays are always true.\<close>

fun truthy :: "json option \<Rightarrow> bool" where
  "truthy None = False"
| "truthy (Some JNull) = False"
| "truthy (Some (JBool b)) = b"
| "truthy (Some (JNumber n)) = (n \<noteq> 0)"
| "truthy (Some (JString s)) = (s \<noteq> [])"
| "truthy (Some (JArray xs)) = True"
| "truthy (Some (JObject kvs)) = True"

text \<open>\<^verbatim>\<open>a || d\<close> for \<open>a\<close> a string or \<^verbatim>\<open>undefined\<close>: the empty string is false too.\<close>

definition or_default :: "string option \<Rightarrow> string \<Rightarrow> string" where
  "or_default a d = (case a of None \<Rightarrow> d | Some s \<Rightarrow> if s = [] then d else s)"

text \<open>\<^verbatim>\<open>String.prototype.startsWith\<close> and \<^verbatim>\<open>endsWith\<close>.\<close>

definition startsWith :: "string \<Rightarrow> string \<Rightarrow> bool" where
  "startsWith s p = (take (length p) s = p)"

definition endsWith :: "string \<Rightarrow> string \<Rightarrow> bool" where
  "endsWith s p = (length p \<le> length s \<and> drop (length s - length p) s = p)"

text \<open>
  How an object gets an own property (\<^verbatim>\<open>CreateDataProperty\<close>, which is what
  \<^verbatim>\<open>JSON.parse\<close> does for each member it reads): an existing key keeps its place and
  takes the new value, a new key goes last. (JavaScript enumerates keys that are
  array indices first; the theorems speak of the entries of an object, not of their
  order.)
\<close>

fun define_own :: "(string \<times> 'a) list \<Rightarrow> string \<Rightarrow> 'a \<Rightarrow> (string \<times> 'a) list" where
  "define_own [] k v = [(k, v)]"
| "define_own ((k', v') # kvs) k v =
     (if k' = k then (k, v) # kvs else (k', v') # define_own kvs k v)"

text \<open>
  \<^verbatim>\<open>obj[key] = v\<close> on an object that started as \<^verbatim>\<open>{}\<close> (lines 110, 116 and 168). The
  object inherits from \<^verbatim>\<open>Object.prototype\<close>, where every name is a writable data
  property but one: \<^verbatim>\<open>__proto__\<close> is an accessor, so an assignment to that key
  calls its setter and creates no own property. (The setter ignores a value that is
  not an object or \<^verbatim>\<open>null\<close>; the values assigned in this program are strings.) For
  every other key the assignment creates or updates the own property.
\<close>

definition obj_set :: "(string \<times> 'a) list \<Rightarrow> string \<Rightarrow> 'a \<Rightarrow> (string \<times> 'a) list" where
  "obj_set kvs k v = (if k = ''__proto__'' then kvs else define_own kvs k v)"

text \<open>\<^verbatim>\<open>Array.prototype.join\<close>.\<close>

fun join :: "string list \<Rightarrow> string \<Rightarrow> string" where
  "join [] sep = []"
| "join [x] sep = x"
| "join (x # y # ys) sep = x @ sep @ join (y # ys) sep"

text \<open>
  What a \<^verbatim>\<open>catch (err: any)\<close> receives. The SDK raises \<^verbatim>\<open>Error\<close> objects; the adapter
  reads only \<^verbatim>\<open>err.message\<close>, which may be missing.
\<close>

datatype thrown = Thrown (message: "string option")

subsection \<open>The sandbox SDK and the host\<close>

datatype file_type = FileT | DirT

record EntryInfo =
  name :: string
  type :: file_type

text \<open>\<^verbatim>\<open>Execution\<close> of the SDK: the log chunks and the optional runtime fault.\<close>

record Execution =
  logs_stdout :: "string list"
  logs_stderr :: "string list"
  execution_error :: "json option"

text \<open>The calls the adapter makes on the SDK, with their arguments.\<close>

datatype call =
  SandboxCreate int
  | CommandsRun string
  | FilesWrite string string
  | RunCode string string "(string \<times> string) list"
  | FilesList string
  | FilesRead string
  | Kill

text \<open>How a call ended: with an exception, or with what it returned.\<close>

datatype answer =
  Raised thrown
  | Done
  | Ran Execution
  | Listed "EntryInfo list"
  | Content string

text \<open>One piece of a \<^verbatim>\<open>console.log\<close> line.\<close>

datatype logged = Str string | Num int | Strs "string list" | Val json

text \<open>
  The host. An SDK function takes the calls made before it and its own arguments; it
  answers with the exception it raises (\<open>Some e\<close>, \<open>Inl e\<close>) or with its value.
  \<open>Date_now k\<close> is the clock's \<open>k\<close>-th reading. \<open>JSON_parse\<close> is \<open>None\<close> where
  \<^verbatim>\<open>JSON.parse\<close> raises a SyntaxError; \<open>JSON_stringify v n\<close> is
  \<^verbatim>\<open>JSON.stringify(v, null, n)\<close>.
\<close>

record host =
  process_env :: "(string \<times> string option) list"
  Date_now :: "nat \<Rightarrow> int"
  JSON_parse :: "string \<Rightarrow> json option"
  JSON_stringify :: "json \<Rightarrow> nat \<Rightarrow> string"
  Sandbox_create :: "call list \<Rightarrow> int \<Rightarrow> thrown option"
  commands_run :: "call list \<Rightarrow> string \<Rightarrow> thrown option"
  files_write :: "call list \<Rightarrow> string \<Rightarrow> string \<Rightarrow> thrown option"
  runCode :: "call list \<Rightarrow> string \<Rightarrow> string \<Rightarrow> (string \<times> string) list \<Rightarrow> thrown + Execution"
  files_list :: "call list \<Rightarrow> string \<Rightarrow> thrown + EntryInfo list"
  files_read :: "call list \<Rightarrow> string \<Rightarrow> thrown + string"
  kill :: "call list \<Rightarrow> thrown option"

text \<open>
  What one invocation does to the outside: the SDK calls in order, each with how it
  ended; the console lines in order; and how often the clock was read.
\<close>

record world =
  calls :: "(call \<times> answer) list"
  console :: "logged list list"
  ticks :: nat

definition start :: world where
  "start = \<lparr>calls = [], console = [], ticks = 0\<rparr>"

definition history :: "world \<Rightarrow> call list" where
  "history w = map fst (calls w)"

definition did :: "call \<Rightarrow> answer \<Rightarrow> world \<Rightarrow> world" where
  "did c a w = w\<lparr>calls := calls w @ [(c, a)]\<rparr>"

definition console_log :: "logged list \<Rightarrow> world \<Rightarrow> world" where
  "console_log line w = w\<lparr>console := console w @ [line]\<rparr>"

definition now :: "host \<Rightarrow> world \<Rightarrow> int \<times> world" where
  "now H w = (Date_now H (ticks w), w\<lparr>ticks := Suc (ticks w)\<rparr>)"

text \<open>Each SDK call of the source: the host is asked, and the call is recorded with its answer.\<close>

definition await_Sandbox_create :: "host \<Rightarrow> int \<Rightarrow> world \<Rightarrow> thrown option \<times> world" where
  "await_Sandbox_create H timeoutMs w =
     (case Sandbox_create H (history w) timeoutMs of
        Some e \<Rightarrow> (Some e, did (SandboxCreate timeoutMs) (Raised e) w)
      | None \<Rightarrow> (None, did (SandboxCreate timeoutMs) Done w))"

definition await_commands_run :: "host \<Rightarrow> string \<Rightarrow> world \<Rightarrow> thrown option \<times> world" where
  "await_commands_run H cmd w =
     (case commands_run H (history w) cmd of
        Some e \<Rightarrow> (Some e, did (CommandsRun cmd) (Raised e) w)
      | None \<Rightarrow> (None, did (CommandsRun cmd) Done w))"

definition await_files_write :: "host \<Rightarrow> string \<Rightarrow> string \<Rightarrow> world \<Rightarrow> thrown option \<times> world" where
  "await_files_write H path content w =
     (case files_write H (history w) path content of
        Some e \<Rightarrow> (Some e, did (FilesWrite path content) (Raised e) w)
      | None \<Rightarrow> (None, did (FilesWrite path content) Done w))"

definition await_runCode :: "host \<Rightarrow> string \<Rightarrow> string \<Rightarrow> (string \<times> string) list \<Rightarrow> world \<Rightarrow> (thrown + Execution) \<times> world" where
  "await_runCode H code language envs w =
     (case runCode H (history w) code language envs of
        Inl e \<Rightarrow> (Inl e, did (RunCode code language envs) (Raised e) w)
      | Inr execution \<Rightarrow> (Inr execution, did (RunCode code language envs) (Ran execution) w))"

definition await_files_list :: "host \<Rightarrow> string \<Rightarrow> world \<Rightarrow> (thrown + EntryInfo list) \<times> world" where
  "await_files_list H path w =
     (case files_list H (history w) path of
        Inl e \<Rightarrow> (Inl e, did (FilesList path) (Raised e) w)
      | Inr fileList \<Rightarrow> (Inr fileList, did (FilesList path) (Listed fileList) w))"

definition await_files_read :: "host \<Rightarrow> string \<Rightarrow> world \<Rightarrow> (thrown + string) \<times> world" where
  "await_files_read H path w =
     (case files_read H (history w) path of
        Inl e \<Rightarrow> (Inl e, did (FilesRead path) (Raised e) w)
      | Inr content \<Rightarrow> (Inr content, did (FilesRead path) (Content content) w))"

definition await_kill :: "host \<Rightarrow> world \<Rightarrow> thrown option \<times> world" where
  "await_kill H w =
     (case kill H (history w) of
        Some e \<Rightarrow> (Some e, did Kill (Raised e) w)
      | None \<Rightarrow> (None, did Kill Done w))"

subsection \<open>The result\<close>

record ExecResult =
  stdout :: string
  stderr :: string
  files :: "(string \<times> string) list option"
  result :: "json option"
  error :: "string option"

subsection \<open>The blocks both versions share\<close>

text \<open>
  Lines 93--98: \<^verbatim>\<open>for (const [path, content] of Object.entries(files))
  await sbx.files.write(`/home/user/${path}`, content)\<close>. The first write that raises
  ends the loop with its exception.
\<close>

fun writeFiles :: "host \<Rightarrow> (string \<times> string) list \<Rightarrow> world \<Rightarrow> thrown option \<times> world" where
  "writeFiles H [] w = (None, w)"
| "writeFiles H ((path, content) # rest) w =
     (case await_files_write H (''/home/user/'' @ path) content w of
        (Some err, w) \<Rightarrow> (Some err, w)
      | (None, w) \<Rightarrow> writeFiles H rest w)"

text \<open>Lines 105--109: the test on the name of a host variable.\<close>

definition forwarded :: "string \<Rightarrow> bool" where
  "forwarded key =
     (endsWith key ''_API_KEY'' \<or> startsWith key ''API_KEY_'' \<or> startsWith key ''BASE_URL_'')"

text \<open>Lines 101--112: the loop over \<^verbatim>\<open>Object.entries(process.env)\<close>.\<close>

fun passThrough :: "(string \<times> string option) list \<Rightarrow> (string \<times> string) list \<Rightarrow> (string \<times> string) list" where
  "passThrough [] envVars = envVars"
| "passThrough ((key, v) # rest) envVars =
     (if forwarded key then passThrough rest (obj_set envVars key (or_default v []))
      else passThrough rest envVars)"

text \<open>Lines 101--117: \<^verbatim>\<open>envVars\<close> as handed to \<^verbatim>\<open>runCode\<close>.\<close>

definition buildEnvVars :: "host \<Rightarrow> json option \<Rightarrow> (string \<times> string) list" where
  "buildEnvVars H args =
     (let envVars = passThrough (process_env H) []
      in case args of
           None \<Rightarrow> envVars
         | Some a \<Rightarrow>
             if truthy (Some a) then obj_set envVars ''ARGS_JSON'' (JSON_stringify H a 0)
             else envVars)"

text \<open>
  Line 140: \<^verbatim>\<open>stdout.match(/\{[\s\S]*\}/)\<close>. The match starts at the first
  \<^verbatim>\<open>{\<close> that has a \<^verbatim>\<open>}\<close> after it, and the greedy star carries it to the last
  \<^verbatim>\<open>}\<close> of the text.
\<close>

definition jsonMatch :: "string \<Rightarrow> string option" where
  "jsonMatch s =
     (case dropWhile (\<lambda>c. c \<noteq> CHR ''{'') s of
        [] \<Rightarrow> None
      | c # t \<Rightarrow>
          (case dropWhile (\<lambda>c. c \<noteq> CHR ''}'') (rev t) of
             [] \<Rightarrow> None
           | u \<Rightarrow> Some (c # rev u)))"

text \<open>Lines 138--146: the parse, with its SyntaxError swallowed.\<close>

definition extractResult :: "host \<Rightarrow> string \<Rightarrow> json option" where
  "extractResult H s =
     (case jsonMatch s of None \<Rightarrow> None | Some m \<Rightarrow> JSON_parse H m)"

text \<open>Lines 134--136: \<^verbatim>\<open>execution.error ? JSON.stringify(execution.error, null, 2) : undefined\<close>.\<close>

definition faultText :: "host \<Rightarrow> Execution \<Rightarrow> string option" where
  "faultText H execution =
     (case execution_error execution of
        None \<Rightarrow> None
      | Some e \<Rightarrow> if truthy (Some e) then Some (JSON_stringify H e 2) else None)"

definition excludeFiles :: "string list" where
  "excludeFiles = [''.bashrc'', ''.bash_logout'', ''.profile'', ''package.json'', ''package-lock.json'']"

text \<open>Lines 162--166: the test on a directory entry.\<close>

definition qualifies :: "EntryInfo \<Rightarrow> bool" where
  "qualifies file =
     (type file = FileT \<and> \<not> endsWith (name file) ''.ts'' \<and> name file \<notin> set excludeFiles)"

text \<open>
  Lines 161--170: the loop over the listing. A read that raises leaves the loop for
  the \<^verbatim>\<open>catch\<close> of line 171, which keeps what \<^verbatim>\<open>outputFiles\<close> holds by then.
\<close>

fun readBack :: "host \<Rightarrow> EntryInfo list \<Rightarrow> (string \<times> string) list \<Rightarrow> world \<Rightarrow> (string \<times> string) list \<times> world" where
  "readBack H [] outputFiles w = (outputFiles, w)"
| "readBack H (file # rest) outputFiles w =
     (if qualifies file then
        (case await_files_read H (''/home/user/'' @ name file) w of
           (Inl e, w) \<Rightarrow> (outputFiles, w)
         | (Inr content, w) \<Rightarrow> readBack H rest (obj_set outputFiles (name file) content) w)
      else readBack H rest outputFiles w)"

text \<open>Lines 149--173: \<^verbatim>\<open>outputFiles\<close> after the \<^verbatim>\<open>try\<close>/\<^verbatim>\<open>catch\<close> around the listing.\<close>

definition collectFiles :: "host \<Rightarrow> world \<Rightarrow> (string \<times> string) list \<times> world" where
  "collectFiles H w =
     (case await_files_list H ''/home/user'' w of
        (Inl e, w) \<Rightarrow> ([], w)
      | (Inr fileList, w) \<Rightarrow> readBack H fileList [] w)"

text \<open>Lines 128--146 and 178--184: the object the \<^verbatim>\<open>try\<close> block returns.\<close>

definition success :: "host \<Rightarrow> Execution \<Rightarrow> (string \<times> string) list \<Rightarrow> ExecResult" where
  "success H execution outputFiles =
     \<lparr>stdout = concat (logs_stdout execution),
      stderr = concat (logs_stderr execution),
      files = (if length outputFiles > 0 then Some outputFiles else None),
      result = extractResult H (concat (logs_stdout execution)),
      error = faultText H execution\<rparr>"

text \<open>
  Lines 194--199: the \<^verbatim>\<open>finally\<close> block, given the value the function is about to
  return. An exception of \<^verbatim>\<open>sbx.kill()\<close> replaces that value: the promise rejects.
\<close>

definition finallyBlock :: "host \<Rightarrow> bool \<Rightarrow> ExecResult \<Rightarrow> world \<Rightarrow> (thrown + ExecResult) \<times> world" where
  "finallyBlock H sbx ret w =
     (if sbx then
        (case await_kill H w of
           (Some e, w) \<Rightarrow> (Inl e, w)
         | (None, w) \<Rightarrow> (Inr ret, w))
      else (Inr ret, w))"

subsection \<open>The instrumented version (lines 59--200)\<close>

text \<open>
  Lines 85--91: the dependencies, one \<^verbatim>\<open>npm install\<close> for all of them, between two
  readings of the clock.
\<close>

definition installDependencies :: "host \<Rightarrow> string list option \<Rightarrow> world \<Rightarrow> thrown option \<times> world" where
  "installDependencies H dependencies w0 =
     (case dependencies of
        None \<Rightarrow> (None, w0)
      | Some ds \<Rightarrow>
          if length ds > 0 then
            (let (installStartTime, w) = now H w0;
                 packages = join ds '' ''
             in case await_commands_run H (''npm install '' @ packages) w of
                  (Some err, w) \<Rightarrow> (Some err, w)
                | (None, w) \<Rightarrow>
                    (let (t, w) = now H w;
                         installDuration = t - installStartTime;
                         w = console_log [Str ''dependencies installed in '', Num installDuration, Str ''ms''] w
                     in (None, w)))
          else (None, w0))"

text \<open>
  Lines 100--184: from the environment to the \<^verbatim>\<open>return\<close> of the \<^verbatim>\<open>try\<close> block.
  \<open>Inl\<close> is the exception that leaves the block.
\<close>

definition runAndCollect :: "host \<Rightarrow> string \<Rightarrow> json option \<Rightarrow> int \<Rightarrow> world \<Rightarrow> (thrown + ExecResult) \<times> world" where
  "runAndCollect H code args startTime w0 =
     (let envVars = buildEnvVars H args;
          (execStartTime, w) = now H w0
      in case await_runCode H code ''ts'' envVars w of
           (Inl err, w) \<Rightarrow> (Inl err, w)
         | (Inr execution, w) \<Rightarrow>
             (let (t, w) = now H w;
                  execDuration = t - execStartTime;
                  w = console_log [Str ''code executed in '', Num execDuration, Str ''ms''] w;
                  (outputFiles, w) = collectFiles H w;
                  (t, w) = now H w;
                  totalDuration = t - startTime;
                  w = console_log [Str ''total execution time: '', Num totalDuration, Str (''ms'' @ [CHR 0x0A])] w
              in (Inr (success H execution outputFiles), w)))"

text \<open>
  Lines 75--184: the \<^verbatim>\<open>try\<close> block. The flag is \<^verbatim>\<open>sbx !== null\<close> when the block is
  left: \<^verbatim>\<open>sbx\<close> is assigned once \<^verbatim>\<open>Sandbox.create\<close> has returned.
\<close>

definition tryBlock :: "host \<Rightarrow> string \<Rightarrow> string list option \<Rightarrow> (string \<times> string) list option \<Rightarrow> json option \<Rightarrow> int \<Rightarrow> world \<Rightarrow> (thrown + ExecResult) \<times> bool \<times> world" where
  "tryBlock H code dependencies files' args startTime w0 =
     (let (sandboxStartTime, w) = now H w0
      in case await_Sandbox_create H 30000 w of
           (Some err, w) \<Rightarrow> (Inl err, False, w)
         | (None, w) \<Rightarrow>
             (let (t, w) = now H w;
                  sandboxDuration = t - sandboxStartTime;
                  w = console_log [Str ''sandbox created in '', Num sandboxDuration, Str ''ms''] w
              in case installDependencies H dependencies w of
                   (Some err, w) \<Rightarrow> (Inl err, True, w)
                 | (None, w) \<Rightarrow>
                     (case (case files' of None \<Rightarrow> (None, w) | Some fs \<Rightarrow> writeFiles H fs w) of
                        (Some err, w) \<Rightarrow> (Inl err, True, w)
                      | (None, w) \<Rightarrow>
                          (case runAndCollect H code args startTime w of
                             (r, w) \<Rightarrow> (r, True, w)))))"

text \<open>Lines 189--193: the object the \<^verbatim>\<open>catch\<close> block returns.\<close>

definition failure :: "thrown \<Rightarrow> ExecResult" where
  "failure err =
     \<lparr>stdout = [], stderr = or_default (message err) ''unknown error'',
      files = None, result = None,
      error = Some (or_default (message err) ''unknown error'')\<rparr>"

text \<open>Lines 185--193: the \<^verbatim>\<open>catch\<close> block.\<close>

definition catchBlock :: "host \<Rightarrow> int \<Rightarrow> thrown \<Rightarrow> world \<Rightarrow> ExecResult \<times> world" where
  "catchBlock H startTime err w0 =
     (let (t, w) = now H w0;
          totalDuration = t - startTime;
          w = console_log [Str ''total execution time (error): '', Num totalDuration, Str (''ms'' @ [CHR 0x0A])] w
      in (failure err, w))"

text \<open>
  Lines 59--200. \<open>Inr\<close> is the \<^verbatim>\<open>ExecResult\<close> the promise resolves to, \<open>Inl\<close> the
  exception it rejects with.
\<close>

definition executeTypeScript :: "host \<Rightarrow> string \<Rightarrow> string list option \<Rightarrow> (string \<times> string) list option \<Rightarrow> json option \<Rightarrow> (thrown + ExecResult) \<times> world" where
  "executeTypeScript H code dependencies files' args =
     (let (startTime, w) = now H start;
          w = console_log [Str (CHR 0x0A # ''=== exec_ts call ==='')] w;
          w = console_log [Str ''dependencies:'',
                (case dependencies of None \<Rightarrow> Str ''none'' | Some ds \<Rightarrow> Strs ds)] w;
          w = console_log [Str ''files:'',
                (case files' of None \<Rightarrow> Str ''none'' | Some fs \<Rightarrow> Strs (map fst fs))] w;
          w = console_log [Str ''args:'',
                (case args of None \<Rightarrow> Str ''none''
                 | Some a \<Rightarrow> if truthy (Some a) then Val a else Str ''none'')] w;
          w = console_log [Str (''========================'' @ [CHR 0x0A])] w
      in case tryBlock H code dependencies files' args startTime w of
           (Inr ret, sbx, w) \<Rightarrow> finallyBlock H sbx ret w
         | (Inl err, sbx, w) \<Rightarrow>
             (case catchBlock H startTime err w of
                (ret, w) \<Rightarrow> finallyBlock H sbx ret w))"

subsection \<open>The version without instrumentation (lines 259--385)\<close>

text \<open>Lines 282--285.\<close>

definition installDependencies_plain :: "host \<Rightarrow> string list option \<Rightarrow> world \<Rightarrow> thrown option \<times> world" where
  "installDependencies_plain H dependencies w =
     (case dependencies of
        None \<Rightarrow> (None, w)
      | Some ds \<Rightarrow>
          if length ds > 0 then
            (let packages = join ds '' ''
             in await_commands_run H (''npm install '' @ packages) w)
          else (None, w))"

text \<open>Lines 294--372.\<close>

definition runAndCollect_plain :: "host \<Rightarrow> string \<Rightarrow> json option \<Rightarrow> world \<Rightarrow> (thrown + ExecResult) \<times> world" where
  "runAndCollect_plain H code args w0 =
     (let envVars = buildEnvVars H args
      in case await_runCode H code ''ts'' envVars w0 of
           (Inl err, w) \<Rightarrow> (Inl err, w)
         | (Inr execution, w) \<Rightarrow>
             (let (outputFiles, w) = collectFiles H w
              in (Inr (success H execution outputFiles), w)))"

text \<open>Lines 275--372.\<close>

definition tryBlock_plain :: "host \<Rightarrow> string \<Rightarrow> string list option \<Rightarrow> (string \<times> string) list option \<Rightarrow> json option \<Rightarrow> world \<Rightarrow> (thrown + ExecResult) \<times> bool \<times> world" where
  "tryBlock_plain H code dependencies files' args w0 =
     (case await_Sandbox_create H 30000 w0 of
        (Some err, w) \<Rightarrow> (Inl err, False, w)
      | (None, w) \<Rightarrow>
          (case installDependencies_plain H dependencies w of
             (Some err, w) \<Rightarrow> (Inl err, True, w)
           | (None, w) \<Rightarrow>
               (case (case files' of None \<Rightarrow> (None, w) | Some fs \<Rightarrow> writeFiles H fs w) of
                  (Some err, w) \<Rightarrow> (Inl err, True, w)
                | (None, w) \<Rightarrow>
                    (case runAndCollect_plain H code args w of
                       (r, w) \<Rightarrow> (r, True, w)))))"

text \<open>Lines 373--378.\<close>

definition catchBlock_plain :: "thrown \<Rightarrow> ExecResult" where
  "catchBlock_plain err =
     \<lparr>stdout = [], stderr = or_default (message err) ''Unknown error'',
      files = None, result = None,
      error = Some (or_default (message err) ''Unknown error'')\<rparr>"

text \<open>Lines 259--385; the \<^verbatim>\<open>finally\<close> block of lines 379--384 is that of lines 194--199.\<close>

definition executeTypeScript_plain :: "host \<Rightarrow> string \<Rightarrow> string list option \<Rightarrow> (string \<times> string) list option \<Rightarrow> json option \<Rightarrow> (thrown + ExecResult) \<times> world" where
  "executeTypeScript_plain H code dependencies files' args =
     (let w = console_log [Str (CHR 0x0A # ''=== EXEC_TS TOOL CALL ==='')] start;
          w = console_log [Str ''Dependencies:'',
                (case dependencies of None \<Rightarrow> Str ''none'' | Some ds \<Rightarrow> Strs ds)] w;
          w = console_log [Str ''Files:'',
                (case files' of None \<Rightarrow> Str ''none'' | Some fs \<Rightarrow> Strs (map fst fs))] w;
          w = console_log [Str ''Args:'',
                (case args of None \<Rightarrow> Str ''none''
                 | Some a \<Rightarrow> if truthy (Some a) then Val a else Str ''none'')] w;
          w = console_log [Str (''Code:'' @ [CHR 0x0A]), Str code] w;
          w = console_log [Str (''========================'' @ [CHR 0x0A])] w
      in case tryBlock_plain H code dependencies files' args w of
           (Inr ret, sbx, w) \<Rightarrow> finallyBlock H sbx ret w
         | (Inl err, sbx, w) \<Rightarrow> finallyBlock H sbx (catchBlock_plain err) w)"

subsection \<open>A JSON implementation for concrete runs\<close>

text \<open>
  The concrete hosts below need a \<^verbatim>\<open>JSON.stringify\<close> and a \<^verbatim>\<open>JSON.parse\<close>: the
  serialisation and the grammar of ECMAScript's JSON object, for the values of type
  \<open>json\<close> (a number with a fraction or an exponent is refused). The general theorems
  hold for every host, whatever its JSON functions are.
\<close>

definition digit_chars :: string where
  "digit_chars = ''0123456789abcdef''"

function show_nat :: "nat \<Rightarrow> string" where
  "show_nat n = (if n < 10 then [digit_chars ! n] else show_nat (n div 10) @ [digit_chars ! (n mod 10)])"
  by pat_completeness auto
termination
  by (relation "measure id") auto

definition show_int :: "int \<Rightarrow> string" where
  "show_int i = (if i < 0 then CHR ''-'' # show_nat (nat (- i)) else show_nat (nat i))"

definition quote_char :: "char \<Rightarrow> string" where
  "quote_char c =
     (if c = CHR 0x22 then [CHR 0x5C, CHR 0x22]
      else if c = CHR 0x5C then [CHR 0x5C, CHR 0x5C]
      else if c = CHR 0x08 then [CHR 0x5C, CHR ''b'']
      else if c = CHR 0x0C then [CHR 0x5C, CHR ''f'']
      else if c = CHR 0x0A then [CHR 0x5C, CHR ''n'']
      else if c = CHR 0x0D then [CHR 0x5C, CHR ''r'']
      else if c = CHR 0x09 then [CHR 0x5C, CHR ''t'']
      else if (of_char c :: nat) < 32
        then [CHR 0x5C, CHR ''u'', CHR ''0'', CHR ''0'',
              digit_chars ! ((of_char c :: nat) div 16), digit_chars ! ((of_char c :: nat) mod 16)]
      else [c])"

definition quote :: "string \<Rightarrow> string" where
  "quote s = CHR 0x22 # concat (map quote_char s) @ [CHR 0x22]"

text \<open>\<open>stringify n ind v\<close>: the text of \<open>v\<close> with a gap of \<open>n\<close> spaces (0: compact) at indentation \<open>ind\<close>.\<close>

fun stringify :: "nat \<Rightarrow> string \<Rightarrow> json \<Rightarrow> string" where
  "stringify n ind JNull = ''null''"
| "stringify n ind (JBool b) = (if b then ''true'' else ''false'')"
| "stringify n ind (JNumber i) = show_int i"
| "stringify n ind (JString s) = quote s"
| "stringify n ind (JArray xs) =
     (if xs = [] then ''[]''
      else if n = 0 then ''['' @ join (map (stringify n ind) xs) '','' @ '']''
      else (let ind' = ind @ replicate n CHR '' ''
            in ''['' @ [CHR 0x0A] @ ind' @
               join (map (stringify n ind') xs) ('','' @ [CHR 0x0A] @ ind') @
               [CHR 0x0A] @ ind @ '']''))"
| "stringify n ind (JObject kvs) =
     (if kvs = [] then ''{}''
      else if n = 0 then
        ''{'' @ join (map (\<lambda>kv. quote (fst kv) @ '':'' @ stringify n ind (snd kv)) kvs) '','' @ ''}''
      else (let ind' = ind @ replicate n CHR '' ''
            in ''{'' @ [CHR 0x0A] @ ind' @
               join (map (\<lambda>kv. quote (fst kv) @ '': '' @ stringify n ind' (snd kv)) kvs) ('','' @ [CHR 0x0A] @ ind') @
               [CHR 0x0A] @ ind @ ''}''))"


definition is_ws :: "char \<Rightarrow> bool" where
  "is_ws c = (c = CHR '' '' \<or> c = CHR 0x09 \<or> c = CHR 0x0A \<or> c = CHR 0x0D)"

definition skip_ws :: "string \<Rightarrow> string" where
  "skip_ws s = dropWhile is_ws s"

definition digit_val :: "char \<Rightarrow> nat option" where
  "digit_val c =
     (let n = (of_char c :: nat)
      in if 48 \<le> n \<and> n \<le> 57 then Some (n - 48)
         else if 97 \<le> n \<and> n \<le> 102 then Some (n - 87)
         else if 65 \<le> n \<and> n \<le> 70 then Some (n - 55)
         else None)"

definition is_digit :: "char \<Rightarrow> bool" where
  "is_digit c = (48 \<le> (of_char c :: nat) \<and> (of_char c :: nat) \<le> 57)"

definition unescape :: "char \<Rightarrow> char option" where
  "unescape e =
     (if e = CHR 0x22 then Some (CHR 0x22)
      else if e = CHR 0x5C then Some (CHR 0x5C)
      else if e = CHR ''/'' then Some (CHR ''/'')
      else if e = CHR ''b'' then Some (CHR 0x08)
      else if e = CHR ''f'' then Some (CHR 0x0C)
      else if e = CHR ''n'' then Some (CHR 0x0A)
      else if e = CHR ''r'' then Some (CHR 0x0D)
      else if e = CHR ''t'' then Some (CHR 0x09)
      else None)"

definition hex4 :: "char \<Rightarrow> char \<Rightarrow> char \<Rightarrow> char \<Rightarrow> char option" where
  "hex4 a b c d =
     (case (digit_val a, digit_val b, digit_val c, digit_val d) of
        (Some x, Some y, Some z, Some u) \<Rightarrow>
          if x = 0 \<and> y = 0 then Some (char_of (z * 16 + u)) else None
      | _ \<Rightarrow> None)"

fun read_string :: "string \<Rightarrow> (string \<times> string) option" where
  "read_string [] = None"
| "read_string (c # r) =
     (if c = CHR 0x22 then Some ([], r)
      else if c = CHR 0x5C then
        (case r of
           [] \<Rightarrow> None
         | e # r1 \<Rightarrow>
             if e = CHR ''u'' then
               (case r1 of
                  h1 # h2 # h3 # h4 # r2 \<Rightarrow>
                    (case hex4 h1 h2 h3 h4 of
                       None \<Rightarrow> None
                     | Some x \<Rightarrow> map_option (\<lambda>p. (x # fst p, snd p)) (read_string r2))
                | _ \<Rightarrow> None)
             else
               (case unescape e of
                  None \<Rightarrow> None
                | Some x \<Rightarrow> map_option (\<lambda>p. (x # fst p, snd p)) (read_string r1)))
      else if (of_char c :: nat) < 32 then None
      else map_option (\<lambda>p. (c # fst p, snd p)) (read_string r))"

definition read_nat :: "string \<Rightarrow> nat" where
  "read_nat ds = foldl (\<lambda>a d. 10 * a + (of_char d - 48)) 0 ds"

definition read_number :: "string \<Rightarrow> (json \<times> string) option" where
  "read_number s =
     (let neg = (s \<noteq> [] \<and> hd s = CHR ''-'');
          t = (if neg then tl s else s);
          ds = takeWhile is_digit t;
          r = dropWhile is_digit t
      in if ds = [] \<or> (length ds > 1 \<and> hd ds = CHR ''0'') then None
         else if r \<noteq> [] \<and> (hd r = CHR ''.'' \<or> hd r = CHR ''e'' \<or> hd r = CHR ''E'') then None
         else Some (JNumber (if neg then - int (read_nat ds) else int (read_nat ds)), r))"

fun read_value :: "nat \<Rightarrow> string \<Rightarrow> (json \<times> string) option"
  and read_elements :: "nat \<Rightarrow> string \<Rightarrow> json list \<Rightarrow> (json \<times> string) option"
  and read_members :: "nat \<Rightarrow> string \<Rightarrow> (string \<times> json) list \<Rightarrow> (json \<times> string) option" where
  "read_value 0 s = None"
| "read_value (Suc n) s =
     (case skip_ws s of
        [] \<Rightarrow> None
      | c # r \<Rightarrow>
          if c = CHR ''{'' then
            (case skip_ws r of
               [] \<Rightarrow> None
             | c1 # r1 \<Rightarrow> if c1 = CHR ''}'' then Some (JObject [], r1) else read_members n (c1 # r1) [])
          else if c = CHR ''['' then
            (case skip_ws r of
               [] \<Rightarrow> None
             | c1 # r1 \<Rightarrow> if c1 = CHR '']'' then Some (JArray [], r1) else read_elements n (c1 # r1) [])
          else if c = CHR 0x22 then map_option (\<lambda>p. (JString (fst p), snd p)) (read_string r)
          else if startsWith (c # r) ''true'' then Some (JBool True, drop 4 (c # r))
          else if startsWith (c # r) ''false'' then Some (JBool False, drop 5 (c # r))
          else if startsWith (c # r) ''null'' then Some (JNull, drop 4 (c # r))
          else read_number (c # r))"
| "read_elements 0 s acc = None"
| "read_elements (Suc n) s acc =
     (case read_value n s of
        None \<Rightarrow> None
      | Some (v, r) \<Rightarrow>
          (case skip_ws r of
             [] \<Rightarrow> None
           | c # r1 \<Rightarrow>
               if c = CHR '','' then read_elements n r1 (acc @ [v])
               else if c = CHR '']'' then Some (JArray (acc @ [v]), r1)
               else None))"
| "read_members 0 s acc = None"
| "read_members (Suc n) s acc =
     (case skip_ws s of
        [] \<Rightarrow> None
      | q # r \<Rightarrow>
          if q \<noteq> CHR 0x22 then None
          else
            (case read_string r of
               None \<Rightarrow> None
             | Some (k, r1) \<Rightarrow>
                 (case skip_ws r1 of
                    [] \<Rightarrow> None
                  | c # r2 \<Rightarrow>
                      if c \<noteq> CHR '':'' then None
                      else
                        (case read_value n r2 of
                           None \<Rightarrow> None
                         | Some (v, r3) \<Rightarrow>
                             (case skip_ws r3 of
                                [] \<Rightarrow> None
                              | d # r4 \<Rightarrow>
                                  if d = CHR '','' then read_members n r4 (define_own acc k v)
                                  else if d = CHR ''}'' then Some (JObject (define_own acc k v), r4)
                                  else None)))))"

definition parse_json :: "string \<Rightarrow> json option" where
  "parse_json s =
     (case read_value (Suc (Suc (length s + length s))) s of
        None \<Rightarrow> None
      | Some (v, r) \<Rightarrow> if skip_ws r = [] then Some v else None)"

subsection \<open>Concrete hosts\<close>

text \<open>
  A host on which every call succeeds. Its environment is the one of the spec's
  example, with one more variable whose value is undefined; the program prints a JSON
  object between two other lines and leaves \<^verbatim>\<open>report.csv\<close> behind.
\<close>

definition printed :: Execution where
  "printed =
     \<lparr>logs_stdout = [''log line'' @ [CHR 0x0A], ''{\"ok\":true,\"data\":5}'', CHR 0x0A # ''trailing''],
      logs_stderr = [], execution_error = None\<rparr>"

definition listing :: "EntryInfo list" where
  "listing =
     [\<lparr>name = ''package.json'', type = FileT\<rparr>, \<lparr>name = ''.bashrc'', type = FileT\<rparr>,
      \<lparr>name = ''program.ts'', type = FileT\<rparr>, \<lparr>name = ''report.csv'', type = FileT\<rparr>,
      \<lparr>name = ''node_modules'', type = DirT\<rparr>]"

definition node :: host where
  "node =
     \<lparr>process_env =
        [(''SECRET_TOKEN'', Some ''x''), (''MY_API_KEY'', Some ''y''),
         (''API_KEY_FOO'', Some ''z''), (''BASE_URL_BAR'', Some ''w''),
         (''OLD_API_KEY'', None)],
      Date_now = (\<lambda>k. 1000 + 5 * int k),
      JSON_parse = parse_json,
      JSON_stringify = (\<lambda>v n. stringify n [] v),
      Sandbox_create = (\<lambda>h t. None),
      commands_run = (\<lambda>h c. None),
      files_write = (\<lambda>h p x. None),
      runCode = (\<lambda>h c l e. Inr printed),
      files_list = (\<lambda>h p. Inr listing),
      files_read = (\<lambda>h p. Inr ''a,b''),
      kill = (\<lambda>h. None)\<rparr>"

text \<open>The arguments of the spec's example.\<close>

definition sample_args :: json where
  "sample_args = JObject [(''n'', JNumber 3), (''tag'', JString ''x'')]"

text \<open>Hosts on which one call fails, or the program behaves otherwise.\<close>

definition quota :: host where
  "quota = node\<lparr>Sandbox_create := (\<lambda>h t. Some (Thrown (Some ''quota exceeded'')))\<rparr>"

definition nameless :: host where
  "nameless = node\<lparr>Sandbox_create := (\<lambda>h t. Some (Thrown None))\<rparr>"

definition disk_full :: host where
  "disk_full = node\<lparr>files_write := (\<lambda>h p x. Some (Thrown (Some ''disk full'')))\<rparr>"

definition kill_fails :: host where
  "kill_fails = node\<lparr>kill := (\<lambda>h. Some (Thrown (Some ''sandbox not found'')))\<rparr>"

definition faulty :: host where
  "faulty = node\<lparr>runCode := (\<lambda>h c l e. Inr
     \<lparr>logs_stdout = [''{}''], logs_stderr = [''boom''],
      execution_error = Some (JObject [(''name'', JString ''Error''), (''value'', JString ''boom''),
                                       (''traceback'', JString [])])\<rparr>)\<rparr>"

definition two_spans :: host where
  "two_spans = node\<lparr>runCode := (\<lambda>h c l e. Inr
     \<lparr>logs_stdout = [''{\"a\":1}'', '' '', ''{\"b\":2}''], logs_stderr = [],
      execution_error = None\<rparr>)\<rparr>"

definition unreadable :: host where
  "unreadable = node\<lparr>files_read := (\<lambda>h p. Inl (Thrown (Some ''permission denied'')))\<rparr>"

text \<open>
  A host whose program leaves two files behind, one of them named \<^verbatim>\<open>__proto__\<close>
  (an ordinary file name on the sandbox's file system).
\<close>

definition proto_file :: host where
  "proto_file = node\<lparr>files_list := (\<lambda>h p. Inr
     [\<lparr>name = ''__proto__'', type = FileT\<rparr>, \<lparr>name = ''report.csv'', type = FileT\<rparr>])\<rparr>"

subsection \<open>Vocabulary for the record of calls\<close>

text \<open>
  The calls whose exception reaches the \<^verbatim>\<open>catch\<close> block of line 185 are \<open>fatal\<close>: all
  but the listing and the reads, whose exceptions the \<^verbatim>\<open>catch\<close> of line 171 takes, and
  \<^verbatim>\<open>kill\<close>, which stands in the \<^verbatim>\<open>finally\<close> block. The fatal calls before \<^verbatim>\<open>runCode\<close>
  are \<open>staging\<close>; an entry is \<open>quiet\<close> when it is a staging call that returned.
\<close>

fun fatal :: "call \<Rightarrow> bool" where
  "fatal (SandboxCreate t) = True"
| "fatal (CommandsRun c) = True"
| "fatal (FilesWrite p x) = True"
| "fatal (RunCode c l e) = True"
| "fatal (FilesList p) = False"
| "fatal (FilesRead p) = False"
| "fatal Kill = False"

fun staging :: "call \<Rightarrow> bool" where
  "staging (SandboxCreate t) = True"
| "staging (CommandsRun c) = True"
| "staging (FilesWrite p x) = True"
| "staging other = False"

fun quiet :: "call \<times> answer \<Rightarrow> bool" where
  "quiet (SandboxCreate t, Done) = True"
| "quiet (CommandsRun c, Done) = True"
| "quiet (FilesWrite p x, Done) = True"
| "quiet other = False"

fun is_read :: "call \<times> answer \<Rightarrow> bool" where
  "is_read (FilesRead p, Content c) = True"
| "is_read (FilesRead p, Raised e) = True"
| "is_read other = False"

text \<open>
  A stretch of the record in which staging calls returned until one raised \<open>err\<close>.
\<close>

definition ends_raised :: "thrown \<Rightarrow> (call \<times> answer) list \<Rightarrow> bool" where
  "ends_raised err ext = (\<exists>pre c. ext = pre @ [(c, Raised err)] \<and> list_all quiet pre \<and> staging c)"

text \<open>
  The stretch of the record that lines 159--173 leave behind, with the \<^verbatim>\<open>outputFiles\<close>
  they end with: the listing, then reads. Each file in \<open>out\<close> was read with its
  content; a listing that raised leaves \<open>out\<close> empty; after a listing \<open>fl\<close> the names
  in \<open>out\<close> are names of qualifying entries of \<open>fl\<close> other than \<^verbatim>\<open>__proto__\<close> (which
  the assignment of line 168 does not store), and all of them when no read raised.
\<close>

definition collection :: "(call \<times> answer) list \<Rightarrow> (string \<times> string) list \<Rightarrow> bool" where
  "collection post out =
     (\<exists>a reads. post = (FilesList ''/home/user'', a) # reads \<and> list_all is_read reads \<and>
        (\<forall>n c. (n, c) \<in> set out \<longrightarrow> (FilesRead (''/home/user/'' @ n), Content c) \<in> set reads) \<and>
        (case a of
           Raised e \<Rightarrow> reads = [] \<and> out = []
         | Listed fl \<Rightarrow>
             fst ` set out \<subseteq> name ` {f \<in> set fl. qualifies f} - {''__proto__''} \<and>
             ((\<forall>p e. (FilesRead p, Raised e) \<notin> set reads) \<longrightarrow>
                fst ` set out = name ` {f \<in> set fl. qualifies f} - {''__proto__''})
         | _ \<Rightarrow> False))"

text \<open>What the caller gets once kill has answered \<open>k\<close>.\<close>

definition settle :: "answer \<Rightarrow> ExecResult \<Rightarrow> thrown + ExecResult" where
  "settle k ret = (case k of Raised e \<Rightarrow> Inl e | _ \<Rightarrow> Inr ret)"

definition kill_answer :: "host \<Rightarrow> call list \<Rightarrow> answer" where
  "kill_answer H h = (case kill H h of None \<Rightarrow> Done | Some e \<Rightarrow> Raised e)"

text \<open>Two runs that differ at most in the console and the clock.\<close>

definition same_outcome :: "'a \<times> world \<Rightarrow> 'a \<times> world \<Rightarrow> bool" where
  "same_outcome p q = (fst p = fst q \<and> calls (snd p) = calls (snd q))"

section \<open>The shape of every run\<close>

lemmas world_defs = did_def history_def console_log_def now_def

lemma ends_raised_prepend: "list_all quiet pre \<Longrightarrow> ends_raised err ext \<Longrightarrow> ends_raised err (pre @ ext)"
  unfolding ends_raised_def by (metis append.assoc list_all_append)

lemma staging_fatal: "staging c \<Longrightarrow> fatal c"
  by (cases c) auto

lemma ends_raised_single: "staging c \<Longrightarrow> ends_raised err [(c, Raised err)]"
  unfolding ends_raised_def by (rule exI[of _ "[]"]) simp

lemma writeFiles_calls:
  "writeFiles H fs w = (r, w') \<Longrightarrow>
   \<exists>ext. calls w' = calls w @ ext \<and>
     (case r of None \<Rightarrow> list_all quiet ext | Some err \<Rightarrow> ends_raised err ext)"
proof (induction fs arbitrary: w)
  case Nil
  then show ?case by auto
next
  case (Cons pc rest)
  obtain path content where pc: "pc = (path, content)" by (cases pc)
  show ?case
  proof (cases "files_write H (history w) (''/home/user/'' @ path) content")
    case None
    let ?w1 = "did (FilesWrite (''/home/user/'' @ path) content) Done w"
    from Cons.prems None pc have "writeFiles H rest ?w1 = (r, w')"
      by (simp add: await_files_write_def)
    from Cons.IH[OF this] obtain ext where
      ext: "calls w' = calls ?w1 @ ext"
        "(case r of None \<Rightarrow> list_all quiet ext | Some err \<Rightarrow> ends_raised err ext)"
      by blast
    let ?e = "(FilesWrite (''/home/user/'' @ path) content, Done)"
    have "calls w' = calls w @ (?e # ext)" using ext(1) by (simp add: did_def)
    moreover have "(case r of None \<Rightarrow> list_all quiet (?e # ext) | Some err \<Rightarrow> ends_raised err (?e # ext))"
      using ext(2) ends_raised_prepend[of "[?e]"] by (auto split: option.splits)
    ultimately show ?thesis by blast
  next
    case (Some e)
    with Cons.prems pc have "r = Some e" "w' = did (FilesWrite (''/home/user/'' @ path) content) (Raised e) w"
      by (auto simp: await_files_write_def)
    then show ?thesis using ends_raised_single[of "FilesWrite (''/home/user/'' @ path) content" e]
      by (auto simp: did_def)
  qed
qed

lemma installDependencies_calls:
  "installDependencies H deps w = (r, w') \<Longrightarrow>
   \<exists>ext. calls w' = calls w @ ext \<and>
     (case r of None \<Rightarrow> list_all quiet ext | Some err \<Rightarrow> ends_raised err ext)"
  using ends_raised_single[of "CommandsRun c" for c]
  by (auto simp: installDependencies_def await_commands_run_def world_defs Let_def
      split: option.splits if_splits prod.splits)

lemma map_fst_define_own:
  "map fst (define_own kvs k v) = (if k \<in> fst ` set kvs then map fst kvs else map fst kvs @ [k])"
  by (induction kvs) force+

lemma define_own_keys: "fst ` set (define_own kvs k v) = insert k (fst ` set kvs)"
proof -
  have "fst ` set (define_own kvs k v) = set (map fst (define_own kvs k v))" by simp
  also have "\<dots> = insert k (fst ` set kvs)" unfolding map_fst_define_own by auto
  finally show ?thesis .
qed

lemma define_own_mem:
  "(n, c) \<in> set (define_own kvs k v) \<Longrightarrow> (n, c) = (k, v) \<or> (n, c) \<in> set kvs"
  by (induction kvs) (auto split: if_splits)

lemma obj_set_keys:
  "fst ` set (obj_set kvs k v) = (if k = ''__proto__'' then fst ` set kvs else insert k (fst ` set kvs))"
  by (simp add: obj_set_def define_own_keys)

lemma obj_set_mem: "(n, c) \<in> set (obj_set kvs k v) \<Longrightarrow> (n, c) = (k, v) \<or> (n, c) \<in> set kvs"
  using define_own_mem[of n c kvs k v] by (simp add: obj_set_def split: if_splits)

lemma forwarded_not_proto: "forwarded k \<Longrightarrow> k \<noteq> ''__proto__''"
  by (auto simp: forwarded_def startsWith_def endsWith_def)

lemma readBack_calls:
  "readBack H fl acc w = (out, w') \<Longrightarrow>
   \<exists>reads. calls w' = calls w @ reads \<and> list_all is_read reads \<and>
     (\<forall>n c. (n, c) \<in> set out \<longrightarrow> (n, c) \<in> set acc \<or> (FilesRead (''/home/user/'' @ n), Content c) \<in> set reads) \<and>
     fst ` set out \<subseteq> fst ` set acc \<union> (name ` {f \<in> set fl. qualifies f} - {''__proto__''}) \<and>
     ((\<forall>p e. (FilesRead p, Raised e) \<notin> set reads) \<longrightarrow>
        fst ` set out = fst ` set acc \<union> (name ` {f \<in> set fl. qualifies f} - {''__proto__''}))"
proof (induction fl arbitrary: acc w)
  case Nil
  then show ?case by auto
next
  case (Cons f rest)
  show ?case
  proof (cases "qualifies f")
    case False
    with Cons.prems have "readBack H rest acc w = (out, w')" by simp
    from Cons.IH[OF this] have "\<exists>reads. calls w' = calls w @ reads \<and> list_all is_read reads \<and>
     (\<forall>n c. (n, c) \<in> set out \<longrightarrow> (n, c) \<in> set acc \<or> (FilesRead (''/home/user/'' @ n), Content c) \<in> set reads) \<and>
     fst ` set out \<subseteq> fst ` set acc \<union> (name ` {f \<in> set rest. qualifies f} - {''__proto__''}) \<and>
     ((\<forall>p e. (FilesRead p, Raised e) \<notin> set reads) \<longrightarrow>
        fst ` set out = fst ` set acc \<union> (name ` {f \<in> set rest. qualifies f} - {''__proto__''}))" .
    moreover have "{g \<in> set (f # rest). qualifies g} = {g \<in> set rest. qualifies g}"
      using False by auto
    ultimately show ?thesis by (simp only:)
  next
    case True
    let ?p = "''/home/user/'' @ name f"
    show ?thesis
    proof (cases "files_read H (history w) ?p")
      case (Inl e)
      with Cons.prems True have "out = acc" "w' = did (FilesRead ?p) (Raised e) w"
        by (auto simp: await_files_read_def)
      then show ?thesis
        by (intro exI[of _ "[(FilesRead ?p, Raised e)]"]) (auto simp: did_def)
    next
      case (Inr content)
      let ?w1 = "did (FilesRead ?p) (Content content) w"
      from Cons.prems True Inr have "readBack H rest (obj_set acc (name f) content) ?w1 = (out, w')"
        by (simp add: await_files_read_def)
      from Cons.IH[OF this] obtain reads where
        r: "calls w' = calls ?w1 @ reads" "list_all is_read reads"
          "\<forall>n c. (n, c) \<in> set out \<longrightarrow> (n, c) \<in> set (obj_set acc (name f) content) \<or> (FilesRead (''/home/user/'' @ n), Content c) \<in> set reads"
          "fst ` set out \<subseteq> fst ` set (obj_set acc (name f) content) \<union> (name ` {f \<in> set rest. qualifies f} - {''__proto__''})"
          "(\<forall>p e. (FilesRead p, Raised e) \<notin> set reads) \<longrightarrow>
             fst ` set out = fst ` set (obj_set acc (name f) content) \<union> (name ` {f \<in> set rest. qualifies f} - {''__proto__''})"
        by (elim exE conjE) (rule that)
      let ?e = "(FilesRead ?p, Content content)"
      have 1: "calls w' = calls w @ (?e # reads)" using r(1) by (simp add: did_def)
      have 2: "list_all is_read (?e # reads)" using r(2) by simp
      have 3: "\<forall>n c. (n, c) \<in> set out \<longrightarrow> (n, c) \<in> set acc \<or> (FilesRead (''/home/user/'' @ n), Content c) \<in> set (?e # reads)"
        using r(3) obj_set_mem by fastforce
      have eq: "name ` {g \<in> set (f # rest). qualifies g} =
          insert (name f) (name ` {g \<in> set rest. qualifies g})"
        using True by auto
      have 4: "(\<forall>p e. (FilesRead p, Raised e) \<notin> set (?e # reads)) \<longrightarrow>
          fst ` set out = fst ` set acc \<union> (name ` {g \<in> set (f # rest). qualifies g} - {''__proto__''})"
        using r(5) unfolding eq obj_set_keys by (auto split: if_splits)
      have 5: "fst ` set out \<subseteq> fst ` set acc \<union> (name ` {g \<in> set (f # rest). qualifies g} - {''__proto__''})"
        using r(4) unfolding eq obj_set_keys by (auto split: if_splits)
      show ?thesis
        by (rule exI[of _ "?e # reads"]) (intro conjI 1 2 3 5 4)
    qed
  qed
qed

lemma collectFiles_calls:
  assumes "collectFiles H w = (out, w')"
  shows "\<exists>post. calls w' = calls w @ post \<and> collection post out"
proof (cases "files_list H (history w) ''/home/user''")
  case (Inl e)
  with assms have "out = []" "w' = did (FilesList ''/home/user'') (Raised e) w"
    by (auto simp: collectFiles_def await_files_list_def)
  then show ?thesis
    by (auto simp: did_def collection_def)
next
  case (Inr fl)
  let ?w1 = "did (FilesList ''/home/user'') (Listed fl) w"
  from assms Inr have "readBack H fl [] ?w1 = (out, w')"
    by (simp add: collectFiles_def await_files_list_def)
  from readBack_calls[OF this] have "\<exists>reads. calls w' = calls ?w1 @ reads \<and> list_all is_read reads \<and>
      (\<forall>n c. (n, c) \<in> set out \<longrightarrow> (FilesRead (''/home/user/'' @ n), Content c) \<in> set reads) \<and>
      fst ` set out \<subseteq> (name ` {f \<in> set fl. qualifies f} - {''__proto__''}) \<and>
      ((\<forall>p e. (FilesRead p, Raised e) \<notin> set reads) \<longrightarrow> fst ` set out = (name ` {f \<in> set fl. qualifies f} - {''__proto__''}))"
    by simp
  then obtain reads where
    r: "calls w' = calls ?w1 @ reads" "list_all is_read reads"
      "\<forall>n c. (n, c) \<in> set out \<longrightarrow> (FilesRead (''/home/user/'' @ n), Content c) \<in> set reads"
      "fst ` set out \<subseteq> (name ` {f \<in> set fl. qualifies f} - {''__proto__''})"
      "(\<forall>p e. (FilesRead p, Raised e) \<notin> set reads) \<longrightarrow> fst ` set out = (name ` {f \<in> set fl. qualifies f} - {''__proto__''})"
    by (elim exE conjE) (rule that)
  have "calls w' = calls w @ (FilesList ''/home/user'', Listed fl) # reads"
    using r(1) by (simp add: did_def)
  moreover have "collection ((FilesList ''/home/user'', Listed fl) # reads) out"
    unfolding collection_def using r(2,3,4,5) by simp
  ultimately show ?thesis by blast
qed

lemma runAndCollect_calls:
  assumes "runAndCollect H code args t0 w0 = (r, w)"
  shows "(\<exists>err. r = Inl err \<and> calls w = calls w0 @ [(RunCode code ''ts'' (buildEnvVars H args), Raised err)]) \<or>
         (\<exists>x post out. r = Inr (success H x out) \<and>
            calls w = calls w0 @ (RunCode code ''ts'' (buildEnvVars H args), Ran x) # post \<and>
            collection post out)"
proof (cases "runCode H (history w0) code ''ts'' (buildEnvVars H args)")
  case (Inl err)
  with assms show ?thesis
    by (auto simp: runAndCollect_def await_runCode_def world_defs Let_def)
next
  case (Inr x)
  define w1 where "w1 = console_log [Str ''code executed in '',
      Num (Date_now H (Suc (ticks w0)) - Date_now H (ticks w0)), Str ''ms'']
     (snd (now H (did (RunCode code ''ts'' (buildEnvVars H args)) (Ran x) (snd (now H w0)))))"
  obtain out w2 where c: "collectFiles H w1 = (out, w2)" by (cases "collectFiles H w1")
  have cw1: "calls w1 = calls w0 @ [(RunCode code ''ts'' (buildEnvVars H args), Ran x)]"
    by (simp add: w1_def world_defs)
  from assms Inr c have "r = Inr (success H x out)" "calls w = calls w2"
    by (auto simp: runAndCollect_def await_runCode_def world_defs Let_def w1_def split: prod.splits)
  moreover from collectFiles_calls[OF c] obtain post where
    "calls w2 = calls w1 @ post" "collection post out" by blast
  ultimately show ?thesis using cw1 by auto
qed

lemma tryBlock_calls:
  assumes "tryBlock H code deps fs args t0 w0 = (r, sbx, w)"
  shows "(\<exists>err. r = Inl err \<and> \<not> sbx \<and> Sandbox_create H (history w0) 30000 = Some err \<and>
            calls w = calls w0 @ [(SandboxCreate 30000, Raised err)]) \<or>
         (\<exists>err pre c. r = Inl err \<and> sbx \<and> Sandbox_create H (history w0) 30000 = None \<and>
            list_all quiet pre \<and> (staging c \<or> c = RunCode code ''ts'' (buildEnvVars H args)) \<and>
            calls w = calls w0 @ (SandboxCreate 30000, Done) # pre @ [(c, Raised err)]) \<or>
         (\<exists>pre x post out. r = Inr (success H x out) \<and> sbx \<and>
            Sandbox_create H (history w0) 30000 = None \<and> list_all quiet pre \<and>
            collection post out \<and>
            calls w = calls w0 @ (SandboxCreate 30000, Done) # pre @
              (RunCode code ''ts'' (buildEnvVars H args), Ran x) # post)"
proof (cases "Sandbox_create H (history w0) 30000")
  case (Some err)
  with assms show ?thesis
    by (auto simp: tryBlock_def await_Sandbox_create_def world_defs Let_def)
next
  case None
  define w1 where "w1 = console_log [Str ''sandbox created in '',
      Num (Date_now H (Suc (ticks w0)) - Date_now H (ticks w0)), Str ''ms'']
     (snd (now H (did (SandboxCreate 30000) Done (snd (now H w0)))))"
  have cw1: "calls w1 = calls w0 @ [(SandboxCreate 30000, Done)]"
    by (simp add: w1_def world_defs)
  obtain ri w2 where i: "installDependencies H deps w1 = (ri, w2)"
    by (cases "installDependencies H deps w1")
  from installDependencies_calls[OF i] obtain e1 where
    e1: "calls w2 = calls w1 @ e1"
      "(case ri of None \<Rightarrow> list_all quiet e1 | Some err \<Rightarrow> ends_raised err e1)"
    by blast
  have unfold: "tryBlock H code deps fs args t0 w0 =
      (case ri of
         Some err \<Rightarrow> (Inl err, True, w2)
       | None \<Rightarrow>
           (case (case fs of None \<Rightarrow> (None, w2) | Some fs' \<Rightarrow> writeFiles H fs' w2) of
              (Some err, w) \<Rightarrow> (Inl err, True, w)
            | (None, w) \<Rightarrow> (case runAndCollect H code args t0 w of (r, w) \<Rightarrow> (r, True, w))))"
    using None i
    by (simp add: tryBlock_def await_Sandbox_create_def world_defs Let_def w1_def)
  show ?thesis
  proof (cases ri)
    case (Some err)
    with assms unfold have "r = Inl err" "sbx" "w = w2" by auto
    moreover from e1(2) Some obtain pre c where
      "e1 = pre @ [(c, Raised err)]" "list_all quiet pre" "staging c"
      unfolding ends_raised_def by auto
    ultimately have "r = Inl err \<and> sbx \<and> list_all quiet pre \<and> staging c \<and>
        calls w = calls w0 @ (SandboxCreate 30000, Done) # pre @ [(c, Raised err)]"
      using e1(1) cw1 by simp
    then show ?thesis using None by blast
  next
    case ri_None: None
    obtain rw w3 where wr: "(case fs of None \<Rightarrow> (None, w2) | Some fs' \<Rightarrow> writeFiles H fs' w2) = (rw, w3)"
      by (cases "(case fs of None \<Rightarrow> (None, w2) | Some fs' \<Rightarrow> writeFiles H fs' w2)")
    have "\<exists>e2. calls w3 = calls w2 @ e2 \<and>
        (case rw of None \<Rightarrow> list_all quiet e2 | Some err \<Rightarrow> ends_raised err e2)"
    proof (cases fs)
      case None
      with wr show ?thesis by auto
    next
      case (Some fs')
      with wr have "writeFiles H fs' w2 = (rw, w3)" by simp
      from writeFiles_calls[OF this] show ?thesis .
    qed
    then obtain e2 where
      e2: "calls w3 = calls w2 @ e2"
        "(case rw of None \<Rightarrow> list_all quiet e2 | Some err \<Rightarrow> ends_raised err e2)"
      by blast
    have q1: "list_all quiet e1" using e1(2) ri_None by simp
    show ?thesis
    proof (cases rw)
      case (Some err)
      with assms unfold ri_None wr have "r = Inl err" "sbx" "w = w3" by auto
      moreover from e2(2) Some obtain pre c where
        "e2 = pre @ [(c, Raised err)]" "list_all quiet pre" "staging c"
        unfolding ends_raised_def by auto
      ultimately have "r = Inl err \<and> sbx \<and> list_all quiet (e1 @ pre) \<and> staging c \<and>
          calls w = calls w0 @ (SandboxCreate 30000, Done) # (e1 @ pre) @ [(c, Raised err)]"
        using e1(1) e2(1) cw1 q1 by auto
      then show ?thesis using None by blast
    next
      case rw_None: None
      obtain rr w4 where rc: "runAndCollect H code args t0 w3 = (rr, w4)"
        by (cases "runAndCollect H code args t0 w3")
      with assms unfold ri_None wr rw_None have rs: "r = rr" "sbx" "w = w4" by auto
      have q2: "list_all quiet e2" using e2(2) rw_None by simp
      from runAndCollect_calls[OF rc] show ?thesis
      proof
        assume "\<exists>err. rr = Inl err \<and> calls w4 = calls w3 @ [(RunCode code ''ts'' (buildEnvVars H args), Raised err)]"
        then obtain err where "rr = Inl err"
          "calls w4 = calls w3 @ [(RunCode code ''ts'' (buildEnvVars H args), Raised err)]" by blast
        then have "r = Inl err \<and> sbx \<and> list_all quiet (e1 @ e2) \<and>
            calls w = calls w0 @ (SandboxCreate 30000, Done) # (e1 @ e2) @
              [(RunCode code ''ts'' (buildEnvVars H args), Raised err)]"
          using rs e1(1) e2(1) cw1 q1 q2 by auto
        then show ?thesis using None by blast
      next
        assume "\<exists>x post out. rr = Inr (success H x out) \<and>
            calls w4 = calls w3 @ (RunCode code ''ts'' (buildEnvVars H args), Ran x) # post \<and>
            collection post out"
        then obtain x post out where "rr = Inr (success H x out)"
          "calls w4 = calls w3 @ (RunCode code ''ts'' (buildEnvVars H args), Ran x) # post"
          "collection post out" by blast
        then have "r = Inr (success H x out) \<and> sbx \<and> list_all quiet (e1 @ e2) \<and>
            collection post out \<and>
            calls w = calls w0 @ (SandboxCreate 30000, Done) # (e1 @ e2) @
              (RunCode code ''ts'' (buildEnvVars H args), Ran x) # post"
          using rs e1(1) e2(1) cw1 q1 q2 by auto
        then show ?thesis using None by blast
      qed
    qed
  qed
qed

lemma finallyBlock_calls:
  "finallyBlock H True ret w =
     (settle (kill_answer H (history w)) ret, did Kill (kill_answer H (history w)) w)"
  by (auto simp: finallyBlock_def await_kill_def settle_def kill_answer_def split: option.splits)

lemma executeTypeScript_cases:
  obtains
    (unprovisioned) err w where
      "executeTypeScript H code deps fs args = (Inr (failure err), w)"
      "calls w = [(SandboxCreate 30000, Raised err)]"
      "Sandbox_create H [] 30000 = Some err"
  | (aborted) err pre c k w where
      "executeTypeScript H code deps fs args = (settle k (failure err), w)"
      "calls w = (SandboxCreate 30000, Done) # pre @ [(c, Raised err), (Kill, k)]"
      "list_all quiet pre" "staging c \<or> c = RunCode code ''ts'' (buildEnvVars H args)"
      "k = kill_answer H (SandboxCreate 30000 # map fst pre @ [c])"
      "Sandbox_create H [] 30000 = None"
  | (ran) pre x post out k w where
      "executeTypeScript H code deps fs args = (settle k (success H x out), w)"
      "calls w = (SandboxCreate 30000, Done) # pre @
         (RunCode code ''ts'' (buildEnvVars H args), Ran x) # post @ [(Kill, k)]"
      "list_all quiet pre" "collection post out"
      "k = kill_answer H (SandboxCreate 30000 # map fst pre @
         RunCode code ''ts'' (buildEnvVars H args) # map fst post)"
      "Sandbox_create H [] 30000 = None"
proof -
  define w0 where "w0 =
     console_log [Str (''========================'' @ [CHR 0x0A])]
      (console_log [Str ''args:'',
                (case args of None \<Rightarrow> Str ''none''
                 | Some a \<Rightarrow> if truthy (Some a) then Val a else Str ''none'')]
       (console_log [Str ''files:'',
                (case fs of None \<Rightarrow> Str ''none'' | Some fs \<Rightarrow> Strs (map fst fs))]
        (console_log [Str ''dependencies:'',
                (case deps of None \<Rightarrow> Str ''none'' | Some ds \<Rightarrow> Strs ds)]
         (console_log [Str (CHR 0x0A # ''=== exec_ts call ==='')] (snd (now H start))))))"
  define t0 where "t0 = fst (now H start)"
  have cw0: "calls w0 = []" "history w0 = []" by (simp_all add: w0_def world_defs start_def)
  obtain r sbx w1 where tb: "tryBlock H code deps fs args t0 w0 = (r, sbx, w1)"
    by (cases "tryBlock H code deps fs args t0 w0")
  have unfold: "executeTypeScript H code deps fs args =
      (case r of Inr ret \<Rightarrow> finallyBlock H sbx ret w1
       | Inl err \<Rightarrow> (case catchBlock H t0 err w1 of (ret, w) \<Rightarrow> finallyBlock H sbx ret w))"
    using tb unfolding w0_def t0_def
    by (simp add: executeTypeScript_def Let_def case_prod_beta split: sum.splits)
  have cb: "\<And>err. \<exists>w. catchBlock H t0 err w1 = (failure err, w) \<and> calls w = calls w1"
    by (simp add: catchBlock_def world_defs Let_def)
  from tryBlock_calls[OF tb] consider
    (a) err where "r = Inl err" "\<not> sbx" "Sandbox_create H (history w0) 30000 = Some err"
      "calls w1 = calls w0 @ [(SandboxCreate 30000, Raised err)]"
  | (b) err pre c where "r = Inl err" "sbx" "Sandbox_create H (history w0) 30000 = None"
      "list_all quiet pre" "staging c \<or> c = RunCode code ''ts'' (buildEnvVars H args)"
      "calls w1 = calls w0 @ (SandboxCreate 30000, Done) # pre @ [(c, Raised err)]"
  | (c) pre x post out where "r = Inr (success H x out)" "sbx"
      "Sandbox_create H (history w0) 30000 = None" "list_all quiet pre"
      "collection post out"
      "calls w1 = calls w0 @ (SandboxCreate 30000, Done) # pre @
         (RunCode code ''ts'' (buildEnvVars H args), Ran x) # post"
    by blast
  then show thesis
  proof cases
    case a
    from cb obtain w2 where w2: "catchBlock H t0 err w1 = (failure err, w2)" "calls w2 = calls w1"
      by blast
    have "executeTypeScript H code deps fs args = (Inr (failure err), w2)"
      using unfold a w2 by (simp add: finallyBlock_def)
    then show thesis using unprovisioned a w2 cw0 by simp
  next
    case b
    from cb obtain w2 where w2: "catchBlock H t0 err w1 = (failure err, w2)" "calls w2 = calls w1"
      by blast
    let ?k = "kill_answer H (history w2)"
    have "executeTypeScript H code deps fs args = (settle ?k (failure err), did Kill ?k w2)"
      using unfold b w2 by (simp add: finallyBlock_calls)
    moreover have "calls (did Kill ?k w2) = (SandboxCreate 30000, Done) # pre @ [(c, Raised err), (Kill, ?k)]"
      using w2(2) b cw0 by (simp add: did_def)
    moreover have "history w2 = SandboxCreate 30000 # map fst pre @ [c]"
      using w2(2) b cw0 by (simp add: history_def)
    ultimately show thesis using aborted[of ?k err "did Kill ?k w2" pre c] b cw0 by simp
  next
    case c
    let ?k = "kill_answer H (history w1)"
    have "executeTypeScript H code deps fs args = (settle ?k (success H x out), did Kill ?k w1)"
      using unfold c by (simp add: finallyBlock_calls)
    moreover have "calls (did Kill ?k w1) = (SandboxCreate 30000, Done) # pre @
         (RunCode code ''ts'' (buildEnvVars H args), Ran x) # post @ [(Kill, ?k)]"
      using c cw0 by (simp add: did_def)
    moreover have "history w1 = SandboxCreate 30000 # map fst pre @
         RunCode code ''ts'' (buildEnvVars H args) # map fst post"
      using c cw0 by (simp add: history_def)
    ultimately show thesis using ran[of ?k x out "did Kill ?k w1" pre post] c cw0 by simp
  qed
qed

lemma quiet_entry: "quiet e \<Longrightarrow> staging (fst e) \<and> snd e = Done"
  by (cases e rule: quiet.cases) auto

lemma quiet_mem: "list_all quiet pre \<Longrightarrow> (c, a) \<in> set pre \<Longrightarrow> staging c \<and> a = Done"
  using quiet_entry by (fastforce simp: list_all_iff)

lemma is_read_entry: "is_read e \<Longrightarrow> \<exists>p. fst e = FilesRead p"
  by (cases e rule: is_read.cases) auto

lemma collection_mem:
  "collection post out \<Longrightarrow> (c, a) \<in> set post \<Longrightarrow> c = FilesList ''/home/user'' \<or> (\<exists>p. c = FilesRead p)"
  using is_read_entry by (fastforce simp: collection_def list_all_iff)

lemma quiet_no_kill: "list_all quiet pre \<Longrightarrow> filter (\<lambda>e. fst e = Kill) pre = []"
  using quiet_mem by (fastforce simp: filter_empty_conv)

lemma collection_no_kill: "collection post out \<Longrightarrow> filter (\<lambda>e. fst e = Kill) post = []"
  using collection_mem by (fastforce simp: filter_empty_conv)

lemma staging_not_kill: "staging c \<or> c = RunCode code l en \<Longrightarrow> c \<noteq> Kill"
  by auto

subsection \<open>Evaluating concrete runs\<close>

lemmas json_eval = parse_json_def skip_ws_def is_ws_def read_number_def read_nat_def is_digit_def
  unescape_def hex4_def digit_val_def quote_def quote_char_def show_int_def digit_chars_def

lemmas run_eval = executeTypeScript_def tryBlock_def catchBlock_def failure_def finallyBlock_def
  runAndCollect_def installDependencies_def collectFiles_def success_def faultText_def
  extractResult_def jsonMatch_def buildEnvVars_def forwarded_def startsWith_def endsWith_def
  or_default_def obj_set_def qualifies_def excludeFiles_def
  await_Sandbox_create_def await_commands_run_def await_files_write_def await_runCode_def
  await_files_list_def await_files_read_def await_kill_def world_defs start_def

lemmas plain_eval = executeTypeScript_plain_def tryBlock_plain_def catchBlock_plain_def
  runAndCollect_plain_def installDependencies_plain_def

lemmas host_eval = printed_def listing_def sample_args_def node_def quota_def nameless_def disk_full_def kill_fails_def faulty_def
  two_spans_def unreadable_def proto_file_def

section \<open>The claims\<close>

subsection \<open>C4: teardown\<close>

text \<open>
  C4, as amended: \<^verbatim>\<open>sbx.kill()\<close> is called exactly once in every invocation in which
  \<^verbatim>\<open>Sandbox.create\<close> returned, whatever happens afterwards (install, staging, execution
  or collection failing included), and it is the last call the adapter makes; when
  \<^verbatim>\<open>Sandbox.create\<close> raises, there is no sandbox and \<^verbatim>\<open>kill\<close> is not called at all.
\<close>

theorem kill_once_when_created:
  "length (filter (\<lambda>e. fst e = Kill) (calls (snd (executeTypeScript H code deps fs args)))) =
     (if Sandbox_create H [] 30000 = None then 1 else 0) \<and>
   (Sandbox_create H [] 30000 = None \<longrightarrow>
      fst (last (calls (snd (executeTypeScript H code deps fs args)))) = Kill)"
proof (cases rule: executeTypeScript_cases[of H code deps fs args])
  case (unprovisioned err w)
  then show ?thesis by simp
next
  case (aborted err pre c k w)
  then show ?thesis using quiet_no_kill[of pre] staging_not_kill[of c] by auto
next
  case (ran pre x post out k w)
  then show ?thesis using quiet_no_kill[of pre] collection_no_kill[of post out] by auto
qed

text \<open>
  A run in which staging the input file fails: the sandbox is still killed, once.
\<close>

theorem kill_once_when_created_witness:
  "calls (snd (executeTypeScript disk_full ''code'' None (Some [(''in.txt'', ''hello'')]) None)) =
     [(SandboxCreate 30000, Done),
      (FilesWrite ''/home/user/in.txt'' ''hello'', Raised (Thrown (Some ''disk full''))),
      (Kill, Done)] \<and>
   length (filter (\<lambda>e. fst e = Kill)
     (calls (snd (executeTypeScript disk_full ''code'' None (Some [(''in.txt'', ''hello'')]) None)))) = 1"
  using kill_once_when_created[of disk_full "''code''" None "Some [(''in.txt'', ''hello'')]" None]
  by (simp add: run_eval host_eval)

text \<open>
  C4 as stated fails when provisioning itself fails: \<^verbatim>\<open>sbx\<close> is still \<^verbatim>\<open>null\<close> in the
  \<^verbatim>\<open>finally\<close> block, the guard \<^verbatim>\<open>if (sbx)\<close> is false, and no teardown is attempted.
\<close>

theorem no_kill_without_sandbox:
  "calls (snd (executeTypeScript quota ''code'' None None None)) =
     [(SandboxCreate 30000, Raised (Thrown (Some ''quota exceeded'')))] \<and>
   length (filter (\<lambda>e. fst e = Kill)
     (calls (snd (executeTypeScript quota ''code'' None None None)))) = 0"
  by (simp add: run_eval host_eval)

subsection \<open>C1: what reaches the caller\<close>

lemma settle_Inl: "settle k r = Inl e \<longleftrightarrow> k = Raised e"
  by (cases k) (auto simp: settle_def)

lemma settle_Inr: "settle k r = Inr r' \<longleftrightarrow> (\<forall>e. k \<noteq> Raised e) \<and> r' = r"
  by (cases k) (auto simp: settle_def)

lemma kill_answer_Raised: "kill_answer H h = Raised e \<longleftrightarrow> kill H h = Some e"
  by (auto simp: kill_answer_def split: option.splits)

lemma quiet_not_raised: "list_all quiet pre \<Longrightarrow> (c, Raised e) \<notin> set pre"
  using quiet_mem by fastforce

lemma quiet_not_Kill: "list_all quiet pre \<Longrightarrow> (Kill, a) \<notin> set pre"
  using quiet_mem by fastforce

lemma collection_not_Kill: "collection post out \<Longrightarrow> (Kill, a) \<notin> set post"
  using collection_mem by fastforce

lemma collection_not_fatal: "collection post out \<Longrightarrow> (c, a) \<in> set post \<Longrightarrow> \<not> fatal c"
  using collection_mem by fastforce

text \<open>
  C1, as amended: an exception of provisioning, dependency installation, file staging
  or \<^verbatim>\<open>runCode\<close> never reaches the caller. The \<^verbatim>\<open>catch\<close> block turns it into the result
  \<open>failure err\<close>, whose \<^verbatim>\<open>stdout\<close> is empty and whose \<^verbatim>\<open>error\<close> and \<^verbatim>\<open>stderr\<close> are the
  exception's message (or \<^verbatim>\<open>"unknown error"\<close>). The one exception that does reach the
  caller is that of \<^verbatim>\<open>sbx.kill()\<close>: the \<^verbatim>\<open>finally\<close> block does not catch it, and it
  replaces the result. So the promise rejects exactly when \<^verbatim>\<open>kill\<close> raised, and on a
  host whose \<^verbatim>\<open>kill\<close> never raises a result is always returned.
\<close>

theorem only_kill_exception_escapes:
  assumes "executeTypeScript H code deps fs args = (out, w)"
  shows "(\<forall>e. out = Inl e \<longleftrightarrow> (Kill, Raised e) \<in> set (calls w)) \<and>
         ((\<forall>h. kill H h = None) \<longrightarrow> (\<exists>r. out = Inr r)) \<and>
         (\<forall>c err. fatal c \<and> (c, Raised err) \<in> set (calls w) \<longrightarrow>
            out = Inr (failure err) \<or> (\<exists>e. out = Inl e \<and> (Kill, Raised e) \<in> set (calls w))) \<and>
         (\<forall>err. stdout (failure err) = [] \<and>
            error (failure err) = Some (or_default (message err) ''unknown error''))"
proof (cases rule: executeTypeScript_cases[of H code deps fs args])
  case (unprovisioned err w')
  with assms have "out = Inr (failure err)" "calls w = [(SandboxCreate 30000, Raised err)]"
    by auto
  then show ?thesis by (auto simp: failure_def)
next
  case (aborted err pre c k w')
  with assms have o: "out = settle k (failure err)"
    and cw: "calls w = (SandboxCreate 30000, Done) # pre @ [(c, Raised err), (Kill, k)]"
    by auto
  have ck: "c \<noteq> Kill" using aborted(4) by auto
  have 1: "\<forall>e. out = Inl e \<longleftrightarrow> (Kill, Raised e) \<in> set (calls w)"
    using o cw ck quiet_not_Kill[OF aborted(3)] by (auto simp: settle_Inl)
  have 2: "(\<forall>h. kill H h = None) \<longrightarrow> (\<exists>r. out = Inr r)"
    using o aborted(5) by (auto simp: settle_Inr kill_answer_def)
  have 3: "\<forall>c' err'. fatal c' \<and> (c', Raised err') \<in> set (calls w) \<longrightarrow>
            out = Inr (failure err') \<or> (\<exists>e. out = Inl e \<and> (Kill, Raised e) \<in> set (calls w))"
  proof (intro allI impI)
    fix c' err' assume a: "fatal c' \<and> (c', Raised err') \<in> set (calls w)"
    then have "err' = err" using cw quiet_not_raised[OF aborted(3)] by auto
    then show "out = Inr (failure err') \<or> (\<exists>e. out = Inl e \<and> (Kill, Raised e) \<in> set (calls w))"
      using o 1 by (cases k) (auto simp: settle_def)
  qed
  from 1 2 3 show ?thesis by (simp add: failure_def)
next
  case (ran pre x post res k w')
  with assms have o: "out = settle k (success H x res)"
    and cw: "calls w = (SandboxCreate 30000, Done) # pre @
         (RunCode code ''ts'' (buildEnvVars H args), Ran x) # post @ [(Kill, k)]"
    by auto
  have 1: "\<forall>e. out = Inl e \<longleftrightarrow> (Kill, Raised e) \<in> set (calls w)"
    using o cw quiet_not_Kill[OF ran(3)] collection_not_Kill[OF ran(4)] by (auto simp: settle_Inl)
  have 2: "(\<forall>h. kill H h = None) \<longrightarrow> (\<exists>r. out = Inr r)"
    using o ran(5) by (auto simp: settle_Inr kill_answer_def)
  have 3: "\<forall>c' err'. fatal c' \<and> (c', Raised err') \<in> set (calls w) \<longrightarrow>
            out = Inr (failure err') \<or> (\<exists>e. out = Inl e \<and> (Kill, Raised e) \<in> set (calls w))"
    using cw quiet_not_raised[OF ran(3)] collection_not_fatal[OF ran(4)] by auto
  from 1 2 3 show ?thesis by (simp add: failure_def)
qed

text \<open>A run in which the write of an input file raises and \<^verbatim>\<open>kill\<close> returns.\<close>

theorem only_kill_exception_escapes_witness:
  "fst (executeTypeScript disk_full ''code'' None (Some [(''in.txt'', ''hello'')]) None) =
     Inr \<lparr>stdout = [], stderr = ''disk full'', files = None, result = None,
          error = Some ''disk full''\<rparr> \<and>
   (FilesWrite ''/home/user/in.txt'' ''hello'', Raised (Thrown (Some ''disk full''))) \<in>
     set (calls (snd (executeTypeScript disk_full ''code'' None (Some [(''in.txt'', ''hello'')]) None))) \<and>
   (\<forall>e. (Kill, Raised e) \<notin>
     set (calls (snd (executeTypeScript disk_full ''code'' None (Some [(''in.txt'', ''hello'')]) None))))"
  using only_kill_exception_escapes[OF surjective_pairing,
      of disk_full "''code''" None "Some [(''in.txt'', ''hello'')]" None]
  by (simp add: run_eval host_eval)

text \<open>
  C1 as stated fails for teardown: on a host where everything succeeds but
  \<^verbatim>\<open>sbx.kill()\<close> raises, the promise rejects with that exception.
\<close>

theorem kill_exception_escapes:
  "fst (executeTypeScript kill_fails ''code'' None None None) =
     Inl (Thrown (Some ''sandbox not found''))"
  by (simp add: run_eval host_eval json_eval)

subsection \<open>C5: the brace span of stdout\<close>

lemma dropWhile_Cons_not: "dropWhile P xs = y # ys \<Longrightarrow> \<not> P y"
  by (induction xs) (auto split: if_splits)

lemma dropWhile_neq_append:
  "a \<notin> set xs \<Longrightarrow> dropWhile (\<lambda>c. c \<noteq> a) (xs @ ys) = dropWhile (\<lambda>c. c \<noteq> a) ys"
  by (induction xs) auto

lemma jsonMatch_iff:
  "jsonMatch s = Some m \<longleftrightarrow>
     (\<exists>pre post. s = pre @ m @ post \<and> CHR ''{'' \<notin> set pre \<and> CHR ''}'' \<notin> set post \<and>
        2 \<le> length m \<and> hd m = CHR ''{'' \<and> last m = CHR ''}'')"
proof
  define P where "P = (\<lambda>c. c \<noteq> CHR ''{'')"
  define Q where "Q = (\<lambda>c. c \<noteq> CHR ''}'')"
  assume a: "jsonMatch s = Some m"
  then obtain c t where dw: "dropWhile P s = c # t"
    unfolding jsonMatch_def P_def by (cases "dropWhile (\<lambda>c. c \<noteq> CHR ''{'') s") auto
  with a have b: "(case dropWhile Q (rev t) of [] \<Rightarrow> None | u \<Rightarrow> Some (c # rev u)) = Some m"
    unfolding jsonMatch_def P_def Q_def by simp
  then obtain u0 us where du: "dropWhile Q (rev t) = u0 # us"
    by (cases "dropWhile Q (rev t)") auto
  from b have m: "m = c # rev (dropWhile Q (rev t))"
    unfolding du by simp
  have u: "dropWhile Q (rev t) \<noteq> []" unfolding du by simp
  have c: "c = CHR ''{''"
    using dropWhile_Cons_not[OF dw] by (simp add: P_def)
  have s: "s = takeWhile P s @ c # t"
    using takeWhile_dropWhile_id[of P s] dw by simp
  have pre: "CHR ''{'' \<notin> set (takeWhile P s)"
    using set_takeWhileD[of "CHR ''{''" P s] by (auto simp: P_def)
  have "rev (rev (dropWhile Q (rev t)) @ rev (takeWhile Q (rev t))) = rev t" by simp
  then have "rev (dropWhile Q (rev t)) @ rev (takeWhile Q (rev t)) = t"
    unfolding rev_is_rev_conv .
  then have t: "t = rev (dropWhile Q (rev t)) @ rev (takeWhile Q (rev t))" by (rule sym)
  have post: "CHR ''}'' \<notin> set (rev (takeWhile Q (rev t)))"
    using set_takeWhileD[of "CHR ''}''" Q "rev t"] by (auto simp: Q_def)
  have l: "last m = CHR ''}''"
    using dropWhile_Cons_not[OF du] unfolding m du by (simp add: Q_def)
  have "s = takeWhile P s @ m @ rev (takeWhile Q (rev t))"
    using s t m by simp
  moreover have "2 \<le> length m" using u m by (cases "dropWhile Q (rev t)") auto
  moreover have "hd m = CHR ''{''" using m c by simp
  ultimately show "\<exists>pre post. s = pre @ m @ post \<and> CHR ''{'' \<notin> set pre \<and> CHR ''}'' \<notin> set post \<and>
        2 \<le> length m \<and> hd m = CHR ''{'' \<and> last m = CHR ''}''"
    using pre post l by blast
next
  assume "\<exists>pre post. s = pre @ m @ post \<and> CHR ''{'' \<notin> set pre \<and> CHR ''}'' \<notin> set post \<and>
        2 \<le> length m \<and> hd m = CHR ''{'' \<and> last m = CHR ''}''"
  then obtain pre post where s: "s = pre @ m @ post" and pre: "CHR ''{'' \<notin> set pre"
    and post: "CHR ''}'' \<notin> set post" and len: "2 \<le> length m"
    and h: "hd m = CHR ''{''" and l: "last m = CHR ''}''" by blast
  from len h obtain m' where m: "m = CHR ''{'' # m'"
    by (cases m) auto
  from len m have ne: "m' \<noteq> []" by auto
  from l m ne have lm: "last m' = CHR ''}''" by simp
  have 1: "dropWhile (\<lambda>c. c \<noteq> CHR ''{'') s = CHR ''{'' # m' @ post"
    using pre by (simp add: s m dropWhile_neq_append)
  have "hd (rev m') = CHR ''}''" using lm ne by (simp add: hd_rev)
  then have "dropWhile (\<lambda>c. c \<noteq> CHR ''}'') (rev m') = rev m'"
    using ne by (cases "rev m'") auto
  then have 2: "dropWhile (\<lambda>c. c \<noteq> CHR ''}'') (rev (m' @ post)) = rev m'"
    using post by (simp add: dropWhile_neq_append)
  show "jsonMatch s = Some m"
    unfolding jsonMatch_def 1 using 2 ne m by (simp split: list.splits)
qed

lemma quiet_not_ran: "list_all quiet pre \<Longrightarrow> (c, Ran x) \<notin> set pre"
  using quiet_mem by fastforce

lemma collection_not_RunCode: "collection post out \<Longrightarrow> (RunCode c l en, a) \<notin> set post"
  using collection_mem by fastforce

lemma staging_not_RunCode: "staging c \<Longrightarrow> c \<noteq> RunCode code l en"
  by auto

text \<open>
  C5, as amended: when \<^verbatim>\<open>runCode\<close> returned the execution \<open>x\<close>, \<^verbatim>\<open>result\<close> is
  \<^verbatim>\<open>JSON.parse\<close> of the one match of \<^verbatim>\<open>/\{[\s\S]*\}/\<close> in stdout, and it is absent when
  there is no match or the parse raises; \<^verbatim>\<open>error\<close> is the text of the fault \<open>x\<close>
  carries, whatever stdout holds. The match is the span from the first \<^verbatim>\<open>{\<close> of
  stdout to its last \<^verbatim>\<open>}\<close>: no \<^verbatim>\<open>{\<close> stands before it and no \<^verbatim>\<open>}\<close> after it. When
  stdout holds several objects, the span covers all of them and what lies between.
\<close>

theorem result_is_parse_of_brace_span:
  assumes "executeTypeScript H code deps fs args = (Inr r, w)"
    and "(RunCode c l en, Ran x) \<in> set (calls w)"
  shows "stdout r = concat (logs_stdout x) \<and>
         result r = (case jsonMatch (stdout r) of None \<Rightarrow> None | Some m \<Rightarrow> JSON_parse H m) \<and>
         error r = faultText H x \<and>
         (\<forall>m. jsonMatch (stdout r) = Some m \<longleftrightarrow>
            (\<exists>pre post. stdout r = pre @ m @ post \<and> CHR ''{'' \<notin> set pre \<and>
               CHR ''}'' \<notin> set post \<and> 2 \<le> length m \<and> hd m = CHR ''{'' \<and> last m = CHR ''}''))"
proof (cases rule: executeTypeScript_cases[of H code deps fs args])
  case (unprovisioned err w')
  with assms show ?thesis by auto
next
  case (aborted err pre c' k w')
  with assms have "calls w = (SandboxCreate 30000, Done) # pre @ [(c', Raised err), (Kill, k)]"
    by auto
  with assms(2) quiet_not_ran[OF aborted(3)] show ?thesis by auto
next
  case (ran pre x' post res k w')
  with assms have o: "Inr r = settle k (success H x' res)"
    and cw: "calls w = (SandboxCreate 30000, Done) # pre @
         (RunCode code ''ts'' (buildEnvVars H args), Ran x') # post @ [(Kill, k)]"
    by auto
  from o have r: "r = success H x' res" by (cases k) (auto simp: settle_def)
  from cw assms(2) quiet_not_ran[OF ran(3)] collection_not_RunCode[OF ran(4)]
  have "x' = x" by auto
  with r show ?thesis by (simp add: success_def extractResult_def jsonMatch_iff)
qed

text \<open>
  The run of the first host: stdout holds one object between two other lines, the
  span is that object, and \<^verbatim>\<open>result\<close> is its parse.
\<close>

theorem result_is_parse_of_brace_span_witness:
  "fst (executeTypeScript node ''code'' None None None) =
     Inr \<lparr>stdout = ''log line'' @ [CHR 0x0A] @ ''{\"ok\":true,\"data\":5}'' @ [CHR 0x0A] @ ''trailing'',
          stderr = [], files = Some [(''report.csv'', ''a,b'')],
          result = Some (JObject [(''ok'', JBool True), (''data'', JNumber 5)]), error = None\<rparr> \<and>
   jsonMatch (''log line'' @ [CHR 0x0A] @ ''{\"ok\":true,\"data\":5}'' @ [CHR 0x0A] @ ''trailing'') =
     Some ''{\"ok\":true,\"data\":5}'' \<and>
   JSON_parse node ''{\"ok\":true,\"data\":5}'' =
     Some (JObject [(''ok'', JBool True), (''data'', JNumber 5)])"
proof -
  let ?r = "\<lparr>stdout = ''log line'' @ [CHR 0x0A] @ ''{\"ok\":true,\"data\":5}'' @ [CHR 0x0A] @ ''trailing'',
          stderr = [], files = Some [(''report.csv'', ''a,b'')],
          result = Some (JObject [(''ok'', JBool True), (''data'', JNumber 5)]), error = None\<rparr>"
  have run: "fst (executeTypeScript node ''code'' None None None) = Inr ?r"
    by (simp add: run_eval host_eval json_eval)
  have mem: "(RunCode ''code'' ''ts'' (buildEnvVars node None), Ran printed) \<in>
      set (calls (snd (executeTypeScript node ''code'' None None None)))"
    by (simp add: run_eval host_eval json_eval)
  have p: "executeTypeScript node ''code'' None None None =
      (Inr ?r, snd (executeTypeScript node ''code'' None None None))"
    using run by (metis prod.collapse)
  have m: "jsonMatch (''log line'' @ [CHR 0x0A] @ ''{\"ok\":true,\"data\":5}'' @ [CHR 0x0A] @ ''trailing'') =
     Some ''{\"ok\":true,\"data\":5}''"
    by (simp add: jsonMatch_def)
  from result_is_parse_of_brace_span[OF p mem]
  have "result ?r = (case jsonMatch (stdout ?r) of None \<Rightarrow> None | Some m \<Rightarrow> JSON_parse node m)"
    by (elim conjE)
  then have "JSON_parse node ''{\"ok\":true,\"data\":5}'' =
     Some (JObject [(''ok'', JBool True), (''data'', JNumber 5)])"
    using m by simp
  with run m show ?thesis by (intro conjI)
qed

text \<open>
  C5 as stated fails when stdout holds several spans. Here the program prints two
  objects. The first brace-delimited span, \<^verbatim>\<open>{"a":1}\<close>, parses, but it is not what
  the code parses: the match runs from the first brace to the last, it is not JSON,
  and \<^verbatim>\<open>result\<close> stays absent.
\<close>

theorem first_span_is_not_the_result:
  "fst (executeTypeScript two_spans ''code'' None None None) =
     Inr \<lparr>stdout = ''{\"a\":1} {\"b\":2}'', stderr = [], files = Some [(''report.csv'', ''a,b'')],
          result = None, error = None\<rparr> \<and>
   jsonMatch ''{\"a\":1} {\"b\":2}'' = Some ''{\"a\":1} {\"b\":2}'' \<and>
   JSON_parse two_spans ''{\"a\":1} {\"b\":2}'' = None \<and>
   JSON_parse two_spans ''{\"a\":1}'' = Some (JObject [(''a'', JNumber 1)])"
proof -
  have run: "fst (executeTypeScript two_spans ''code'' None None None) =
     Inr \<lparr>stdout = ''{\"a\":1} {\"b\":2}'', stderr = [], files = Some [(''report.csv'', ''a,b'')],
          result = None, error = None\<rparr>"
    by (simp add: run_eval host_eval json_eval)
  have m: "jsonMatch ''{\"a\":1} {\"b\":2}'' = Some ''{\"a\":1} {\"b\":2}''"
    by (simp add: jsonMatch_def)
  have n: "JSON_parse two_spans ''{\"a\":1} {\"b\":2}'' = None"
    by (simp add: host_eval json_eval startsWith_def)
  have f: "JSON_parse two_spans ''{\"a\":1}'' = Some (JObject [(''a'', JNumber 1)])"
    by (simp add: host_eval json_eval startsWith_def)
  from run m n f show ?thesis by (intro conjI)
qed

subsection \<open>C3: error and result together\<close>

lemma settle_Inr_eq: "Inr r = settle k ret \<Longrightarrow> r = ret"
  by (cases k) (auto simp: settle_def)

text \<open>
  C3, as amended: an \<^verbatim>\<open>error\<close> set by the \<^verbatim>\<open>catch\<close> block (an exception of
  provisioning, installation, staging or \<^verbatim>\<open>runCode\<close>) comes with no \<^verbatim>\<open>result\<close> and no
  \<^verbatim>\<open>files\<close>. An \<^verbatim>\<open>error\<close> that is the text of a fault reported by \<^verbatim>\<open>runCode\<close> does not
  exclude a \<^verbatim>\<open>result\<close>: \<^verbatim>\<open>result\<close> is then still whatever the brace span of stdout
  parses to.
\<close>

theorem error_excludes_result_only_when_caught:
  assumes "executeTypeScript H code deps fs args = (Inr r, w)"
    and "error r = Some m"
  shows "(\<exists>c err. fatal c \<and> (c, Raised err) \<in> set (calls w) \<and> r = failure err \<and>
            m = or_default (message err) ''unknown error'' \<and> result r = None \<and> files r = None) \<or>
         (\<exists>x. (RunCode code ''ts'' (buildEnvVars H args), Ran x) \<in> set (calls w) \<and>
            faultText H x = Some m \<and> result r = extractResult H (concat (logs_stdout x)))"
proof (cases rule: executeTypeScript_cases[of H code deps fs args])
  case (unprovisioned err w')
  with assms have "r = failure err" "calls w = [(SandboxCreate 30000, Raised err)]" by auto
  with assms(2) have "fatal (SandboxCreate 30000) \<and> (SandboxCreate 30000, Raised err) \<in> set (calls w) \<and>
      r = failure err \<and> m = or_default (message err) ''unknown error'' \<and> result r = None \<and> files r = None"
    by (auto simp: failure_def)
  then show ?thesis by blast
next
  case (aborted err pre c k w')
  with assms have o: "Inr r = settle k (failure err)"
    and cw: "calls w = (SandboxCreate 30000, Done) # pre @ [(c, Raised err), (Kill, k)]"
    by auto
  have "fatal c" using aborted(4) staging_fatal by auto
  moreover have "r = failure err" using settle_Inr_eq[OF o] .
  ultimately have "fatal c \<and> (c, Raised err) \<in> set (calls w) \<and>
      r = failure err \<and> m = or_default (message err) ''unknown error'' \<and> result r = None \<and> files r = None"
    using cw assms(2) by (auto simp: failure_def)
  then show ?thesis by blast
next
  case (ran pre x post res k w')
  with assms have o: "Inr r = settle k (success H x res)"
    and cw: "calls w = (SandboxCreate 30000, Done) # pre @
         (RunCode code ''ts'' (buildEnvVars H args), Ran x) # post @ [(Kill, k)]"
    by auto
  have "r = success H x res" using settle_Inr_eq[OF o] .
  with assms(2) cw have "(RunCode code ''ts'' (buildEnvVars H args), Ran x) \<in> set (calls w) \<and>
            faultText H x = Some m \<and> result r = extractResult H (concat (logs_stdout x))"
    by (simp add: success_def)
  then show ?thesis by blast
qed

text \<open>
  The two branches at concrete runs: a caught exception, and a fault reported by a
  program that also printed an object.
\<close>

theorem error_excludes_result_only_when_caught_witness:
  "fst (executeTypeScript quota ''code'' None None None) =
     Inr \<lparr>stdout = [], stderr = ''quota exceeded'', files = None, result = None,
          error = Some ''quota exceeded''\<rparr> \<and>
   (SandboxCreate 30000, Raised (Thrown (Some ''quota exceeded''))) \<in>
     set (calls (snd (executeTypeScript quota ''code'' None None None)))"
proof -
  have run: "fst (executeTypeScript quota ''code'' None None None) =
     Inr \<lparr>stdout = [], stderr = ''quota exceeded'', files = None, result = None,
          error = Some ''quota exceeded''\<rparr>"
    by (simp add: run_eval host_eval)
  have cw: "calls (snd (executeTypeScript quota ''code'' None None None)) =
      [(SandboxCreate 30000, Raised (Thrown (Some ''quota exceeded'')))]"
    by (simp add: run_eval host_eval)
  have p: "executeTypeScript quota ''code'' None None None =
      (Inr \<lparr>stdout = [], stderr = ''quota exceeded'', files = None, result = None,
          error = Some ''quota exceeded''\<rparr>, snd (executeTypeScript quota ''code'' None None None))"
    using run by (metis prod.collapse)
  from error_excludes_result_only_when_caught[OF p, of "''quota exceeded''"] run cw
  show ?thesis by simp
qed

text \<open>
  C3 as stated fails: the program prints \<^verbatim>\<open>{}\<close> and the sandbox reports a fault. Both
  \<^verbatim>\<open>result\<close> and \<^verbatim>\<open>error\<close> are set.
\<close>

theorem error_and_result_both_set:
  "fst (executeTypeScript faulty ''code'' None None None) =
     Inr \<lparr>stdout = ''{}'', stderr = ''boom'', files = Some [(''report.csv'', ''a,b'')],
          result = Some (JObject []),
          error = Some (stringify 2 []
            (JObject [(''name'', JString ''Error''), (''value'', JString ''boom''),
                      (''traceback'', JString [])]))\<rparr>"
  by (simp add: run_eval host_eval json_eval)

subsection \<open>C6 and C8: the files read back\<close>

lemma quiet_not_FilesList: "list_all quiet pre \<Longrightarrow> (FilesList p, a) \<notin> set pre"
  using quiet_mem by fastforce


lemma staging_not_listing: "staging c \<or> c = RunCode code l en \<Longrightarrow> c \<noteq> FilesList p \<and> c \<noteq> FilesRead p"
  by auto

text \<open>What \<open>collection\<close> says, once the listing and the reads are told apart.\<close>

lemma collection_cases:
  assumes "collection post out"
  obtains (unlisted) e where "post = [(FilesList ''/home/user'', Raised e)]" "out = []"
  | (listed) fl reads where "post = (FilesList ''/home/user'', Listed fl) # reads"
      "list_all is_read reads"
      "\<forall>n c. (n, c) \<in> set out \<longrightarrow> (FilesRead (''/home/user/'' @ n), Content c) \<in> set reads"
      "fst ` set out \<subseteq> name ` {f \<in> set fl. qualifies f} - {''__proto__''}"
      "(\<forall>p e. (FilesRead p, Raised e) \<notin> set reads) \<longrightarrow> fst ` set out = name ` {f \<in> set fl. qualifies f} - {''__proto__''}"
proof -
  from assms obtain a reads where p: "post = (FilesList ''/home/user'', a) # reads"
    and r: "list_all is_read reads"
    and c: "\<forall>n c. (n, c) \<in> set out \<longrightarrow> (FilesRead (''/home/user/'' @ n), Content c) \<in> set reads"
    and a: "(case a of
           Raised e \<Rightarrow> reads = [] \<and> out = []
         | Listed fl \<Rightarrow>
             fst ` set out \<subseteq> name ` {f \<in> set fl. qualifies f} - {''__proto__''} \<and>
             ((\<forall>p e. (FilesRead p, Raised e) \<notin> set reads) \<longrightarrow>
                fst ` set out = name ` {f \<in> set fl. qualifies f} - {''__proto__''})
         | _ \<Rightarrow> False)"
    unfolding collection_def by (elim exE conjE) (rule that)
  show thesis
  proof (cases a)
    case (Raised e)
    with a p show ?thesis using unlisted by simp
  next
    case (Listed fl)
    with a p r c show ?thesis using listed[of fl reads] by simp
  qed (use a in simp_all)
qed

lemma is_read_not_FilesList: "list_all is_read reads \<Longrightarrow> (FilesList p, a) \<notin> set reads"
  using is_read_entry by (fastforce simp: list_all_iff)

text \<open>
  What \<^verbatim>\<open>files\<close> holds, for every host. When the working directory was listed as
  \<open>fl\<close>, no file outside the qualifying ones (regular files whose name is none of the
  five excluded names and does not end in \<^verbatim>\<open>.ts\<close>) is ever in \<^verbatim>\<open>files\<close>, and every file
  in it carries the content that was read for it. When no read raised, \<^verbatim>\<open>files\<close>
  holds every qualifying file but one: a file named \<^verbatim>\<open>__proto__\<close> is read and then
  lost in the assignment of line 168. \<^verbatim>\<open>files\<close> is never an empty object: with
  nothing to return the field is absent.
\<close>

theorem files_are_the_stored_entries:
  assumes "executeTypeScript H code deps fs args = (Inr r, w)"
  shows "files r \<noteq> Some [] \<and>
         (\<forall>p fl. (FilesList p, Listed fl) \<in> set (calls w) \<longrightarrow>
            (\<forall>outputFiles. files r = Some outputFiles \<longrightarrow>
               fst ` set outputFiles \<subseteq> name ` {f \<in> set fl. qualifies f} - {''__proto__''} \<and>
               (\<forall>n c. (n, c) \<in> set outputFiles \<longrightarrow>
                  (FilesRead (''/home/user/'' @ n), Content c) \<in> set (calls w))) \<and>
            ((\<forall>q e. (FilesRead q, Raised e) \<notin> set (calls w)) \<longrightarrow>
               (case files r of
                  None \<Rightarrow> name ` {f \<in> set fl. qualifies f} - {''__proto__''} = {}
                | Some outputFiles \<Rightarrow> fst ` set outputFiles = name ` {f \<in> set fl. qualifies f} - {''__proto__''}))) \<and>
         (\<forall>f. qualifies f \<longleftrightarrow>
            type f = FileT \<and> \<not> endsWith (name f) ''.ts'' \<and>
            name f \<notin> {''.bashrc'', ''.bash_logout'', ''.profile'', ''package.json'', ''package-lock.json''})"
proof -
  have q: "\<forall>f. qualifies f \<longleftrightarrow>
            type f = FileT \<and> \<not> endsWith (name f) ''.ts'' \<and>
            name f \<notin> {''.bashrc'', ''.bash_logout'', ''.profile'', ''package.json'', ''package-lock.json''}"
    by (simp add: qualifies_def excludeFiles_def)
  show ?thesis
  proof (cases rule: executeTypeScript_cases[of H code deps fs args])
    case (unprovisioned err w')
    with assms have "r = failure err" "calls w = [(SandboxCreate 30000, Raised err)]" by auto
    then show ?thesis using q by (simp add: failure_def)
  next
    case (aborted err pre c k w')
    with assms have o: "Inr r = settle k (failure err)"
      and cw: "calls w = (SandboxCreate 30000, Done) # pre @ [(c, Raised err), (Kill, k)]"
      by auto
    have "files r = None" using settle_Inr_eq[OF o] by (simp add: failure_def)
    moreover have "\<forall>p fl. (FilesList p, Listed fl) \<notin> set (calls w)"
      using cw quiet_not_FilesList[OF aborted(3)] by auto
    ultimately show ?thesis using q by simp
  next
    case (ran pre x post res k w')
    with assms have o: "Inr r = settle k (success H x res)"
      and cw: "calls w = (SandboxCreate 30000, Done) # pre @
           (RunCode code ''ts'' (buildEnvVars H args), Ran x) # post @ [(Kill, k)]"
      by auto
    have fr: "files r = (if res = [] then None else Some res)"
      using settle_Inr_eq[OF o] by (simp add: success_def)
    have 1: "files r \<noteq> Some []" using fr by simp
    from ran(4) have 2: "\<forall>p fl. (FilesList p, Listed fl) \<in> set (calls w) \<longrightarrow>
            (\<forall>outputFiles. files r = Some outputFiles \<longrightarrow>
               fst ` set outputFiles \<subseteq> name ` {f \<in> set fl. qualifies f} - {''__proto__''} \<and>
               (\<forall>n c. (n, c) \<in> set outputFiles \<longrightarrow>
                  (FilesRead (''/home/user/'' @ n), Content c) \<in> set (calls w))) \<and>
            ((\<forall>q e. (FilesRead q, Raised e) \<notin> set (calls w)) \<longrightarrow>
               (case files r of
                  None \<Rightarrow> name ` {f \<in> set fl. qualifies f} - {''__proto__''} = {}
                | Some outputFiles \<Rightarrow> fst ` set outputFiles = name ` {f \<in> set fl. qualifies f} - {''__proto__''}))"
    proof (cases rule: collection_cases)
      case (unlisted e)
      then have "\<forall>p fl. (FilesList p, Listed fl) \<notin> set (calls w)"
        using cw quiet_not_FilesList[OF ran(3)] by auto
      then show ?thesis by simp
    next
      case (listed fl' reads)
      show ?thesis
      proof (intro allI impI)
        fix p fl assume "(FilesList p, Listed fl) \<in> set (calls w)"
        then have fl: "fl = fl'"
          using cw listed(1) quiet_not_FilesList[OF ran(3)] is_read_not_FilesList[OF listed(2)]
          by auto
        have sub: "set reads \<subseteq> set (calls w)" using cw listed(1) by auto
        have a: "\<forall>outputFiles. files r = Some outputFiles \<longrightarrow>
               fst ` set outputFiles \<subseteq> name ` {f \<in> set fl. qualifies f} - {''__proto__''} \<and>
               (\<forall>n c. (n, c) \<in> set outputFiles \<longrightarrow>
                  (FilesRead (''/home/user/'' @ n), Content c) \<in> set (calls w))"
          using fr listed(3,4) sub fl by (auto split: if_splits)
        have b: "(\<forall>q e. (FilesRead q, Raised e) \<notin> set (calls w)) \<longrightarrow>
               (case files r of
                  None \<Rightarrow> name ` {f \<in> set fl. qualifies f} - {''__proto__''} = {}
                | Some outputFiles \<Rightarrow> fst ` set outputFiles = name ` {f \<in> set fl. qualifies f} - {''__proto__''})"
        proof
          assume "\<forall>q e. (FilesRead q, Raised e) \<notin> set (calls w)"
          then have "\<forall>p e. (FilesRead p, Raised e) \<notin> set reads" using sub by blast
          with listed(5) have "fst ` set res = name ` {f \<in> set fl. qualifies f} - {''__proto__''}" using fl by simp
          then show "(case files r of
                  None \<Rightarrow> name ` {f \<in> set fl. qualifies f} - {''__proto__''} = {}
                | Some outputFiles \<Rightarrow> fst ` set outputFiles = name ` {f \<in> set fl. qualifies f} - {''__proto__''})"
            using fr by (cases "res = []") auto
        qed
        from a b show "(\<forall>outputFiles. files r = Some outputFiles \<longrightarrow>
               fst ` set outputFiles \<subseteq> name ` {f \<in> set fl. qualifies f} - {''__proto__''} \<and>
               (\<forall>n c. (n, c) \<in> set outputFiles \<longrightarrow>
                  (FilesRead (''/home/user/'' @ n), Content c) \<in> set (calls w))) \<and>
            ((\<forall>q e. (FilesRead q, Raised e) \<notin> set (calls w)) \<longrightarrow>
               (case files r of
                  None \<Rightarrow> name ` {f \<in> set fl. qualifies f} - {''__proto__''} = {}
                | Some outputFiles \<Rightarrow> fst ` set outputFiles = name ` {f \<in> set fl. qualifies f} - {''__proto__''}))"
          by (rule conjI)
      qed
    qed
    from 1 2 q show ?thesis by (intro conjI)
  qed
qed

text \<open>
  The directory of the spec's example (with a subdirectory added): only
  \<^verbatim>\<open>report.csv\<close> qualifies, and only it is returned.
\<close>

theorem files_are_the_stored_entries_example:
  "fst (executeTypeScript node ''code'' None None None) =
     Inr \<lparr>stdout = ''log line'' @ [CHR 0x0A] @ ''{\"ok\":true,\"data\":5}'' @ [CHR 0x0A] @ ''trailing'',
          stderr = [], files = Some [(''report.csv'', ''a,b'')],
          result = Some (JObject [(''ok'', JBool True), (''data'', JNumber 5)]), error = None\<rparr> \<and>
   (FilesList ''/home/user'',
      Listed [\<lparr>name = ''package.json'', type = FileT\<rparr>, \<lparr>name = ''.bashrc'', type = FileT\<rparr>,
              \<lparr>name = ''program.ts'', type = FileT\<rparr>, \<lparr>name = ''report.csv'', type = FileT\<rparr>,
              \<lparr>name = ''node_modules'', type = DirT\<rparr>]) \<in>
     set (calls (snd (executeTypeScript node ''code'' None None None))) \<and>
   name ` {f \<in> set [\<lparr>name = ''package.json'', type = FileT\<rparr>, \<lparr>name = ''.bashrc'', type = FileT\<rparr>,
              \<lparr>name = ''program.ts'', type = FileT\<rparr>, \<lparr>name = ''report.csv'', type = FileT\<rparr>,
              \<lparr>name = ''node_modules'', type = DirT\<rparr>]. qualifies f} - {''__proto__''} =
     {''report.csv''}"
proof -
  let ?r = "\<lparr>stdout = ''log line'' @ [CHR 0x0A] @ ''{\"ok\":true,\"data\":5}'' @ [CHR 0x0A] @ ''trailing'',
          stderr = [], files = Some [(''report.csv'', ''a,b'')],
          result = Some (JObject [(''ok'', JBool True), (''data'', JNumber 5)]), error = None\<rparr>"
  let ?fl = "[\<lparr>name = ''package.json'', type = FileT\<rparr>, \<lparr>name = ''.bashrc'', type = FileT\<rparr>,
              \<lparr>name = ''program.ts'', type = FileT\<rparr>, \<lparr>name = ''report.csv'', type = FileT\<rparr>,
              \<lparr>name = ''node_modules'', type = DirT\<rparr>]"
  have run: "fst (executeTypeScript node ''code'' None None None) = Inr ?r"
    by (simp add: run_eval host_eval json_eval)
  have cw: "map fst (calls (snd (executeTypeScript node ''code'' None None None))) =
      [SandboxCreate 30000,
       RunCode ''code'' ''ts'' [(''MY_API_KEY'', ''y''), (''API_KEY_FOO'', ''z''),
         (''BASE_URL_BAR'', ''w''), (''OLD_API_KEY'', [])],
       FilesList ''/home/user'', FilesRead ''/home/user/report.csv'', Kill]"
    by (simp add: run_eval host_eval json_eval)
  have mem: "(FilesList ''/home/user'', Listed ?fl) \<in>
      set (calls (snd (executeTypeScript node ''code'' None None None)))"
    by (simp add: run_eval host_eval json_eval)
  have noraise: "\<forall>q e. (FilesRead q, Raised e) \<notin>
      set (calls (snd (executeTypeScript node ''code'' None None None)))"
    by (simp add: run_eval host_eval json_eval)
  have p: "executeTypeScript node ''code'' None None None =
      (Inr ?r, snd (executeTypeScript node ''code'' None None None))"
    using run by (metis prod.collapse)
  from files_are_the_stored_entries[OF p] mem noraise
  have "fst ` set [(''report.csv'', ''a,b'')] = name ` {f \<in> set ?fl. qualifies f} - {''__proto__''}"
    by fastforce
  with run mem show ?thesis by simp
qed

text \<open>
  C6 says that \<^verbatim>\<open>outputFiles\<close> contains exactly the regular files of the listing that
  are not in the exclusion set. The code does not do that for a file named
  \<^verbatim>\<open>__proto__\<close>: here the program leaves \<^verbatim>\<open>__proto__\<close> and \<^verbatim>\<open>report.csv\<close> behind, both
  pass the test of lines 162--166 and both are read, with the same content, but only
  \<^verbatim>\<open>report.csv\<close> is in \<^verbatim>\<open>files\<close>. The comment of line 148 announces the reading back of
  any file that was written.
\<close>

theorem proto_file_read_but_not_returned:
  "fst (executeTypeScript proto_file ''code'' None None None) =
     Inr \<lparr>stdout = ''log line'' @ [CHR 0x0A] @ ''{\"ok\":true,\"data\":5}'' @ [CHR 0x0A] @ ''trailing'',
          stderr = [], files = Some [(''report.csv'', ''a,b'')],
          result = Some (JObject [(''ok'', JBool True), (''data'', JNumber 5)]), error = None\<rparr> \<and>
   calls (snd (executeTypeScript proto_file ''code'' None None None)) =
     [(SandboxCreate 30000, Done),
      (RunCode ''code'' ''ts''
         [(''MY_API_KEY'', ''y''), (''API_KEY_FOO'', ''z''), (''BASE_URL_BAR'', ''w''),
          (''OLD_API_KEY'', [])], Ran printed),
      (FilesList ''/home/user'',
         Listed [\<lparr>name = ''__proto__'', type = FileT\<rparr>, \<lparr>name = ''report.csv'', type = FileT\<rparr>]),
      (FilesRead ''/home/user/__proto__'', Content ''a,b''),
      (FilesRead ''/home/user/report.csv'', Content ''a,b''),
      (Kill, Done)] \<and>
   qualifies \<lparr>name = ''__proto__'', type = FileT\<rparr> \<and>
   qualifies \<lparr>name = ''report.csv'', type = FileT\<rparr>"
proof -
  have run: "fst (executeTypeScript proto_file ''code'' None None None) =
     Inr \<lparr>stdout = ''log line'' @ [CHR 0x0A] @ ''{\"ok\":true,\"data\":5}'' @ [CHR 0x0A] @ ''trailing'',
          stderr = [], files = Some [(''report.csv'', ''a,b'')],
          result = Some (JObject [(''ok'', JBool True), (''data'', JNumber 5)]), error = None\<rparr>"
    by (simp add: run_eval host_eval json_eval)
  have cw: "calls (snd (executeTypeScript proto_file ''code'' None None None)) =
     [(SandboxCreate 30000, Done),
      (RunCode ''code'' ''ts''
         [(''MY_API_KEY'', ''y''), (''API_KEY_FOO'', ''z''), (''BASE_URL_BAR'', ''w''),
          (''OLD_API_KEY'', [])], Ran printed),
      (FilesList ''/home/user'',
         Listed [\<lparr>name = ''__proto__'', type = FileT\<rparr>, \<lparr>name = ''report.csv'', type = FileT\<rparr>]),
      (FilesRead ''/home/user/__proto__'', Content ''a,b''),
      (FilesRead ''/home/user/report.csv'', Content ''a,b''),
      (Kill, Done)]"
    by (simp add: run_eval host_eval json_eval)
  have q: "qualifies \<lparr>name = ''__proto__'', type = FileT\<rparr> \<and>
      qualifies \<lparr>name = ''report.csv'', type = FileT\<rparr>"
    by (simp add: qualifies_def excludeFiles_def endsWith_def)
  from run cw q show ?thesis by (intro conjI) simp_all
qed



subsection \<open>C2, C7 and C10: the environment of the program\<close>

lemma not_forwarded_ARGS_JSON: "\<not> forwarded ''ARGS_JSON''"
  by (simp add: forwarded_def startsWith_def endsWith_def)

lemma not_forwarded_SECRET_TOKEN: "\<not> forwarded ''SECRET_TOKEN''"
  by (simp add: forwarded_def startsWith_def endsWith_def)

lemma passThrough_keys:
  "fst ` set (passThrough env acc) = fst ` set acc \<union> {k \<in> fst ` set env. forwarded k}"
proof (induction env arbitrary: acc)
  case Nil
  then show ?case by simp
next
  case (Cons kv rest)
  obtain key v where kv: "kv = (key, v)" by (cases kv)
  show ?case
  proof (cases "forwarded key")
    case True
    then show ?thesis unfolding kv
      using Cons.IH[of "obj_set acc key (or_default v [])"] forwarded_not_proto[of key]
      by (auto simp: obj_set_keys)
  next
    case False
    then show ?thesis unfolding kv using Cons.IH[of acc] by auto
  qed
qed

lemma map_of_define_own:
  "map_of (define_own kvs k v) k' = (if k' = k then Some v else map_of kvs k')"
  by (induction kvs) auto

lemma map_of_obj_set:
  "k \<noteq> ''__proto__'' \<Longrightarrow>
   map_of (obj_set kvs k v) k' = (if k' = k then Some v else map_of kvs k')"
  by (simp add: obj_set_def map_of_define_own)

lemma passThrough_map_of:
  "distinct (map fst env) \<Longrightarrow>
   map_of (passThrough env acc) k =
     (if forwarded k then
        (case map_of env k of None \<Rightarrow> map_of acc k | Some v \<Rightarrow> Some (or_default v []))
      else map_of acc k)"
proof (induction env arbitrary: acc)
  case Nil
  then show ?case by simp
next
  case (Cons kv rest)
  obtain key v where kv: "kv = (key, v)" by (cases kv)
  from Cons.prems have d: "distinct (map fst rest)" and nk: "key \<notin> fst ` set rest"
    by (auto simp: kv)
  from nk have none: "map_of rest key = None"
    by (simp add: map_of_eq_None_iff)
  show ?case
  proof (cases "forwarded key")
    case True
    show ?thesis unfolding kv
      using True none Cons.IH[OF d, of "obj_set acc key (or_default v [])"]
        forwarded_not_proto[OF True]
      by (auto simp: map_of_obj_set split: option.splits)
  next
    case False
    show ?thesis unfolding kv
      using False Cons.IH[OF d, of acc] by auto
  qed
qed

lemma filter_neq_define_own:
  "k \<notin> fst ` set kvs \<Longrightarrow> filter (\<lambda>kv. fst kv \<noteq> k) (define_own kvs k v) = kvs"
  by (induction kvs) auto

lemma filter_eq_define_own:
  "k \<notin> fst ` set kvs \<Longrightarrow> filter (\<lambda>kv. fst kv = k) (define_own kvs k v) = [(k, v)]"
  by (induction kvs) auto

lemma filter_neq_obj_set:
  "k \<noteq> ''__proto__'' \<Longrightarrow> k \<notin> fst ` set kvs \<Longrightarrow>
   filter (\<lambda>kv. fst kv \<noteq> k) (obj_set kvs k v) = kvs"
  by (simp add: obj_set_def filter_neq_define_own)

lemma filter_eq_obj_set:
  "k \<noteq> ''__proto__'' \<Longrightarrow> k \<notin> fst ` set kvs \<Longrightarrow>
   filter (\<lambda>kv. fst kv = k) (obj_set kvs k v) = [(k, v)]"
  by (simp add: obj_set_def filter_eq_define_own)

lemma filter_neq_absent:
  "k \<notin> fst ` set kvs \<Longrightarrow> filter (\<lambda>kv. fst kv \<noteq> k) kvs = kvs"
  by (induction kvs) auto

lemma ARGS_JSON_not_passed: "''ARGS_JSON'' \<notin> fst ` set (passThrough env [])"
  using not_forwarded_ARGS_JSON by (simp add: passThrough_keys)

text \<open>Every \<^verbatim>\<open>runCode\<close> call of a run carries the program and \<^verbatim>\<open>envVars\<close>.\<close>

lemma runCode_entry:
  assumes "(RunCode c l envs, a) \<in> set (calls (snd (executeTypeScript H code deps fs args)))"
  shows "c = code \<and> l = ''ts'' \<and> envs = buildEnvVars H args"
proof (cases rule: executeTypeScript_cases[of H code deps fs args])
  case (unprovisioned err w)
  with assms show ?thesis by auto
next
  case (aborted err pre c' k w)
  have "(RunCode c l envs, a) \<notin> set pre" using quiet_mem[OF aborted(3)] by fastforce
  with assms aborted(1,2,4) show ?thesis by auto
next
  case (ran pre x post res k w)
  have "(RunCode c l envs, a) \<notin> set pre" using quiet_mem[OF ran(3)] by fastforce
  moreover have "(RunCode c l envs, a) \<notin> set post" using collection_mem[OF ran(4)] by fastforce
  ultimately show ?thesis using assms ran(1,2) by auto
qed

lemma buildEnvVars_keys:
  "fst ` set (buildEnvVars H args) =
     {k \<in> fst ` set (process_env H). forwarded k} \<union> (if truthy args then {''ARGS_JSON''} else {})"
  by (cases args) (auto simp: buildEnvVars_def Let_def passThrough_keys obj_set_keys)

lemma buildEnvVars_map_of:
  assumes "distinct (map fst (process_env H))" "(k, v) \<in> set (process_env H)" "forwarded k"
  shows "map_of (buildEnvVars H args) k = Some (or_default v [])"
proof -
  have k: "k \<noteq> ''ARGS_JSON''" using assms(3) not_forwarded_ARGS_JSON by auto
  have "map_of (process_env H) k = Some v" using assms(1,2) by simp
  then have "map_of (passThrough (process_env H) []) k = Some (or_default v [])"
    using assms(1,3) by (simp add: passThrough_map_of)
  then show ?thesis using k
    by (cases args) (auto simp: buildEnvVars_def Let_def map_of_obj_set)
qed

text \<open>
  What lines 101--117 hand to \<^verbatim>\<open>runCode\<close>, for every host: the host variables whose
  name ends with \<^verbatim>\<open>_API_KEY\<close> or begins with \<^verbatim>\<open>API_KEY_\<close> or \<^verbatim>\<open>BASE_URL_\<close>, each with
  its value (the empty string for a missing one), and no other host variable,
  \<^verbatim>\<open>SECRET_TOKEN\<close> for one. The test of line 115 adds \<^verbatim>\<open>ARGS_JSON\<close> when \<^verbatim>\<open>args\<close> is
  truthy and not otherwise.
\<close>

theorem forwarded_environment:
  assumes "(RunCode c l envs, a) \<in> set (calls (snd (executeTypeScript H code deps fs args)))"
  shows "fst ` set envs =
           {k \<in> fst ` set (process_env H). forwarded k} \<union>
           (if truthy args then {''ARGS_JSON''} else {}) \<and>
         ''SECRET_TOKEN'' \<notin> fst ` set envs \<and>
         (distinct (map fst (process_env H)) \<longrightarrow>
            (\<forall>k v. (k, v) \<in> set (process_env H) \<and> forwarded k \<longrightarrow>
               map_of envs k = Some (or_default v []))) \<and>
         (\<forall>k. forwarded k \<longleftrightarrow>
            endsWith k ''_API_KEY'' \<or> startsWith k ''API_KEY_'' \<or> startsWith k ''BASE_URL_'')"
proof -
  from runCode_entry[OF assms] have e: "envs = buildEnvVars H args" by simp
  have 1: "fst ` set envs =
           {k \<in> fst ` set (process_env H). forwarded k} \<union>
           (if truthy args then {''ARGS_JSON''} else {})"
    unfolding e by (rule buildEnvVars_keys)
  have 2: "''SECRET_TOKEN'' \<notin> fst ` set envs"
    unfolding 1 using not_forwarded_SECRET_TOKEN by simp
  have 3: "distinct (map fst (process_env H)) \<longrightarrow>
            (\<forall>k v. (k, v) \<in> set (process_env H) \<and> forwarded k \<longrightarrow>
               map_of envs k = Some (or_default v []))"
    unfolding e using buildEnvVars_map_of by blast
  have 4: "\<forall>k. forwarded k \<longleftrightarrow>
            endsWith k ''_API_KEY'' \<or> startsWith k ''API_KEY_'' \<or> startsWith k ''BASE_URL_''"
    by (simp add: forwarded_def)
  from 1 2 3 4 show ?thesis by (intro conjI)
qed

text \<open>The run of the spec's example: four variables are forwarded, and the arguments.\<close>

theorem forwarded_environment_example:
  "(RunCode ''code'' ''ts''
      [(''MY_API_KEY'', ''y''), (''API_KEY_FOO'', ''z''), (''BASE_URL_BAR'', ''w''),
       (''OLD_API_KEY'', []), (''ARGS_JSON'', ''{\"n\":3,\"tag\":\"x\"}'')], Ran printed) \<in>
     set (calls (snd (executeTypeScript node ''code'' None None (Some sample_args)))) \<and>
   {k \<in> fst ` set (process_env node). forwarded k} \<union> {''ARGS_JSON''} =
     {''MY_API_KEY'', ''API_KEY_FOO'', ''BASE_URL_BAR'', ''OLD_API_KEY'', ''ARGS_JSON''}"
proof -
  let ?envs = "[(''MY_API_KEY'', ''y''), (''API_KEY_FOO'', ''z''), (''BASE_URL_BAR'', ''w''),
       (''OLD_API_KEY'', []), (''ARGS_JSON'', ''{\"n\":3,\"tag\":\"x\"}'')]"
  have mem: "(RunCode ''code'' ''ts'' ?envs, Ran printed) \<in>
     set (calls (snd (executeTypeScript node ''code'' None None (Some sample_args))))"
    by (simp add: run_eval host_eval json_eval)
  have "truthy (Some sample_args)" by (simp add: sample_args_def)
  with forwarded_environment[OF mem] have
    "fst ` set ?envs = {k \<in> fst ` set (process_env node). forwarded k} \<union> {''ARGS_JSON''}"
    by simp
  then have "{k \<in> fst ` set (process_env node). forwarded k} \<union> {''ARGS_JSON''} = fst ` set ?envs"
    by (rule sym)
  with mem show ?thesis by auto
qed

text \<open>
  C2 says that \<^verbatim>\<open>ARGS_JSON\<close> is part of the forwarded environment when arguments are
  supplied. The code does not do that for every argument: line 115 tests \<^verbatim>\<open>if (args)\<close>,
  and the supplied argument \<^verbatim>\<open>0\<close> is falsy. The environment of the program is then
  the four forwarded host variables and no \<^verbatim>\<open>ARGS_JSON\<close>, whereas the argument \<^verbatim>\<open>1\<close>
  is forwarded. The comment of line 114 announces the injection of the arguments
  whenever they are provided.
\<close>

theorem zero_args_not_forwarded:
  "map fst (calls (snd (executeTypeScript node ''code'' None None (Some (JNumber 0))))) =
     [SandboxCreate 30000,
      RunCode ''code'' ''ts''
        [(''MY_API_KEY'', ''y''), (''API_KEY_FOO'', ''z''), (''BASE_URL_BAR'', ''w''),
         (''OLD_API_KEY'', [])],
      FilesList ''/home/user'', FilesRead ''/home/user/report.csv'', Kill] \<and>
   map fst (calls (snd (executeTypeScript node ''code'' None None (Some (JNumber 1))))) =
     [SandboxCreate 30000,
      RunCode ''code'' ''ts''
        [(''MY_API_KEY'', ''y''), (''API_KEY_FOO'', ''z''), (''BASE_URL_BAR'', ''w''),
         (''OLD_API_KEY'', []), (''ARGS_JSON'', ''1'')],
      FilesList ''/home/user'', FilesRead ''/home/user/report.csv'', Kill]"
proof -
  have 0: "map fst (calls (snd (executeTypeScript node ''code'' None None (Some (JNumber 0))))) =
     [SandboxCreate 30000,
      RunCode ''code'' ''ts''
        [(''MY_API_KEY'', ''y''), (''API_KEY_FOO'', ''z''), (''BASE_URL_BAR'', ''w''),
         (''OLD_API_KEY'', [])],
      FilesList ''/home/user'', FilesRead ''/home/user/report.csv'', Kill]"
    by (simp add: run_eval host_eval json_eval)
  have 1: "map fst (calls (snd (executeTypeScript node ''code'' None None (Some (JNumber 1))))) =
     [SandboxCreate 30000,
      RunCode ''code'' ''ts''
        [(''MY_API_KEY'', ''y''), (''API_KEY_FOO'', ''z''), (''BASE_URL_BAR'', ''w''),
         (''OLD_API_KEY'', []), (''ARGS_JSON'', ''1'')],
      FilesList ''/home/user'', FilesRead ''/home/user/report.csv'', Kill]"
    by (simp add: run_eval host_eval json_eval)
  from 0 1 show ?thesis by (rule conjI)
qed

text \<open>
  C10: a host variable with a matching name is in the environment of the program
  whatever its value, and with the empty string when its value is undefined.
\<close>

theorem undefined_value_forwarded_as_empty:
  assumes "(RunCode c l envs, a) \<in> set (calls (snd (executeTypeScript H code deps fs args)))"
    and "(key, v) \<in> set (process_env H)" and "forwarded key"
  shows "key \<in> fst ` set envs \<and>
         (distinct (map fst (process_env H)) \<and> v = None \<longrightarrow>
            map_of envs key = Some [] \<and> (key, []) \<in> set envs)"
proof -
  from runCode_entry[OF assms(1)] have e: "envs = buildEnvVars H args" by simp
  have "key \<in> fst ` set (process_env H)" using assms(2) by force
  then have 1: "key \<in> fst ` set envs"
    unfolding e buildEnvVars_keys using assms(3) by simp
  have 2: "distinct (map fst (process_env H)) \<and> v = None \<longrightarrow>
            map_of envs key = Some [] \<and> (key, []) \<in> set envs"
  proof
    assume d: "distinct (map fst (process_env H)) \<and> v = None"
    with buildEnvVars_map_of[OF _ assms(2,3), of args]
    have "map_of envs key = Some []" unfolding e by (simp add: or_default_def)
    then show "map_of envs key = Some [] \<and> (key, []) \<in> set envs"
      by (simp add: map_of_SomeD)
  qed
  from 1 2 show ?thesis by (rule conjI)
qed

text \<open>On the concrete host, \<^verbatim>\<open>OLD_API_KEY\<close> has no value and is forwarded empty.\<close>

theorem undefined_value_forwarded_as_empty_witness:
  "(''OLD_API_KEY'', None) \<in> set (process_env node) \<and> forwarded ''OLD_API_KEY'' \<and>
   distinct (map fst (process_env node)) \<and>
   (RunCode ''code'' ''ts''
      [(''MY_API_KEY'', ''y''), (''API_KEY_FOO'', ''z''), (''BASE_URL_BAR'', ''w''),
       (''OLD_API_KEY'', [])], Ran printed) \<in>
     set (calls (snd (executeTypeScript node ''code'' None None None))) \<and>
   map_of [(''MY_API_KEY'', ''y''), (''API_KEY_FOO'', ''z''), (''BASE_URL_BAR'', ''w''),
       (''OLD_API_KEY'', [])] ''OLD_API_KEY'' = Some []"
proof -
  let ?envs = "[(''MY_API_KEY'', ''y''), (''API_KEY_FOO'', ''z''), (''BASE_URL_BAR'', ''w''),
       (''OLD_API_KEY'', [])]"
  have mem: "(RunCode ''code'' ''ts'' ?envs, Ran printed) \<in>
     set (calls (snd (executeTypeScript node ''code'' None None None)))"
    by (simp add: run_eval host_eval json_eval)
  have h: "(''OLD_API_KEY'', None) \<in> set (process_env node)" by (simp add: node_def)
  have f: "forwarded ''OLD_API_KEY''" by (simp add: forwarded_def startsWith_def endsWith_def)
  have d: "distinct (map fst (process_env node))" by (simp add: node_def)
  from undefined_value_forwarded_as_empty[OF mem h f] d
  have "map_of ?envs ''OLD_API_KEY'' = Some []" by blast
  with mem h f d show ?thesis by simp
qed

text \<open>
  The entry that line 116 adds, for every host. When \<^verbatim>\<open>args\<close> is truthy, the
  environment of the program has exactly one entry named \<^verbatim>\<open>ARGS_JSON\<close> and its value
  is \<^verbatim>\<open>JSON.stringify(args)\<close>; when \<^verbatim>\<open>args\<close> is falsy there is none. The other entries
  do not depend on \<^verbatim>\<open>args\<close>.
\<close>

theorem ARGS_JSON_entry:
  assumes "(RunCode c l envs, ans) \<in> set (calls (snd (executeTypeScript H code deps fs args)))"
  shows "(\<forall>a. args = Some a \<and> truthy args \<longrightarrow>
            map_of envs ''ARGS_JSON'' = Some (JSON_stringify H a 0) \<and>
            filter (\<lambda>kv. fst kv = ''ARGS_JSON'') envs = [(''ARGS_JSON'', JSON_stringify H a 0)]) \<and>
         (\<not> truthy args \<longrightarrow> ''ARGS_JSON'' \<notin> fst ` set envs) \<and>
         filter (\<lambda>kv. fst kv \<noteq> ''ARGS_JSON'') envs = passThrough (process_env H) []"
proof -
  from runCode_entry[OF assms] have e: "envs = buildEnvVars H args" by simp
  note n = ARGS_JSON_not_passed[of "process_env H"]
  have 1: "\<forall>a. args = Some a \<and> truthy args \<longrightarrow>
            map_of envs ''ARGS_JSON'' = Some (JSON_stringify H a 0) \<and>
            filter (\<lambda>kv. fst kv = ''ARGS_JSON'') envs = [(''ARGS_JSON'', JSON_stringify H a 0)]"
    unfolding e using n
    by (auto simp: buildEnvVars_def Let_def map_of_obj_set filter_eq_obj_set)
  have 2: "\<not> truthy args \<longrightarrow> ''ARGS_JSON'' \<notin> fst ` set envs"
    unfolding e buildEnvVars_keys using not_forwarded_ARGS_JSON by simp
  have 3: "filter (\<lambda>kv. fst kv \<noteq> ''ARGS_JSON'') envs = passThrough (process_env H) []"
    unfolding e using n
    by (cases args) (auto simp: buildEnvVars_def Let_def filter_neq_obj_set filter_neq_absent)
  from 1 2 3 show ?thesis by (intro conjI)
qed

text \<open>
  The spec's example \<^verbatim>\<open>{"n": 3, "tag": "x"}\<close>, with the JSON functions of the concrete
  host: the program finds the text in \<^verbatim>\<open>ARGS_JSON\<close>, and the text parses back to
  the arguments.
\<close>

theorem ARGS_JSON_entry_example:
  "(RunCode ''code'' ''ts''
      [(''MY_API_KEY'', ''y''), (''API_KEY_FOO'', ''z''), (''BASE_URL_BAR'', ''w''),
       (''OLD_API_KEY'', []), (''ARGS_JSON'', ''{\"n\":3,\"tag\":\"x\"}'')], Ran printed) \<in>
     set (calls (snd (executeTypeScript node ''code'' None None (Some sample_args)))) \<and>
   JSON_stringify node sample_args 0 = ''{\"n\":3,\"tag\":\"x\"}'' \<and>
   JSON_parse node ''{\"n\":3,\"tag\":\"x\"}'' = Some sample_args"
proof -
  let ?envs = "[(''MY_API_KEY'', ''y''), (''API_KEY_FOO'', ''z''), (''BASE_URL_BAR'', ''w''),
       (''OLD_API_KEY'', []), (''ARGS_JSON'', ''{\"n\":3,\"tag\":\"x\"}'')]"
  have mem: "(RunCode ''code'' ''ts'' ?envs, Ran printed) \<in>
     set (calls (snd (executeTypeScript node ''code'' None None (Some sample_args))))"
    by (simp add: run_eval host_eval json_eval)
  have t: "truthy (Some sample_args)" by (simp add: sample_args_def)
  from ARGS_JSON_entry[OF mem] t
  have "map_of ?envs ''ARGS_JSON'' = Some (JSON_stringify node sample_args 0)"
    by blast
  then have s: "JSON_stringify node sample_args 0 = ''{\"n\":3,\"tag\":\"x\"}''" by simp
  have p: "JSON_parse node ''{\"n\":3,\"tag\":\"x\"}'' = Some sample_args"
    by (simp add: host_eval json_eval startsWith_def)
  from mem s p show ?thesis by (intro conjI)
qed

text \<open>
  C7 says that every supplied arguments value is serialized and exposed under
  \<^verbatim>\<open>ARGS_JSON\<close>, so that parsing the variable gives the arguments back. The code
  does not do that for every value: line 115 tests \<^verbatim>\<open>if (args)\<close>, and the supplied
  argument \<^verbatim>\<open>false\<close> is falsy. The program then runs with no \<^verbatim>\<open>ARGS_JSON\<close> at all,
  whereas the argument \<^verbatim>\<open>true\<close> is exposed as the text \<^verbatim>\<open>true\<close>, which parses back.
  The comment of line 114 announces the injection of the arguments whenever they are
  provided.
\<close>

theorem false_args_not_exposed:
  "map fst (calls (snd (executeTypeScript node ''code'' None None (Some (JBool False))))) =
     [SandboxCreate 30000,
      RunCode ''code'' ''ts''
        [(''MY_API_KEY'', ''y''), (''API_KEY_FOO'', ''z''), (''BASE_URL_BAR'', ''w''),
         (''OLD_API_KEY'', [])],
      FilesList ''/home/user'', FilesRead ''/home/user/report.csv'', Kill] \<and>
   map fst (calls (snd (executeTypeScript node ''code'' None None (Some (JBool True))))) =
     [SandboxCreate 30000,
      RunCode ''code'' ''ts''
        [(''MY_API_KEY'', ''y''), (''API_KEY_FOO'', ''z''), (''BASE_URL_BAR'', ''w''),
         (''OLD_API_KEY'', []), (''ARGS_JSON'', ''true'')],
      FilesList ''/home/user'', FilesRead ''/home/user/report.csv'', Kill] \<and>
   JSON_parse node ''true'' = Some (JBool True)"
proof -
  have 0: "map fst (calls (snd (executeTypeScript node ''code'' None None (Some (JBool False))))) =
     [SandboxCreate 30000,
      RunCode ''code'' ''ts''
        [(''MY_API_KEY'', ''y''), (''API_KEY_FOO'', ''z''), (''BASE_URL_BAR'', ''w''),
         (''OLD_API_KEY'', [])],
      FilesList ''/home/user'', FilesRead ''/home/user/report.csv'', Kill]"
    by (simp add: run_eval host_eval json_eval)
  have 1: "map fst (calls (snd (executeTypeScript node ''code'' None None (Some (JBool True))))) =
     [SandboxCreate 30000,
      RunCode ''code'' ''ts''
        [(''MY_API_KEY'', ''y''), (''API_KEY_FOO'', ''z''), (''BASE_URL_BAR'', ''w''),
         (''OLD_API_KEY'', []), (''ARGS_JSON'', ''true'')],
      FilesList ''/home/user'', FilesRead ''/home/user/report.csv'', Kill]"
    by (simp add: run_eval host_eval json_eval)
  have 2: "JSON_parse node ''true'' = Some (JBool True)"
    by (simp add: host_eval json_eval startsWith_def)
  from 0 1 2 show ?thesis by (intro conjI)
qed

subsection \<open>C9: the two versions\<close>

text \<open>
  The instrumented version is run on a host with an arbitrary clock, the other
  version on the host as it is; the worlds they pass through agree on the calls made.
\<close>

lemma same_outcomeI: "fst p = fst q \<Longrightarrow> calls (snd p) = calls (snd q) \<Longrightarrow> same_outcome p q"
  by (simp add: same_outcome_def)

lemma same_outcome_pairD: "same_outcome (a, w) (b, w') \<Longrightarrow> a = b \<and> calls w = calls w'"
  by (simp add: same_outcome_def)

lemma buildEnvVars_clock: "buildEnvVars (H\<lparr>Date_now := clk\<rparr>) args = buildEnvVars H args"
  by (simp add: buildEnvVars_def Let_def split: option.splits)

lemma success_clock: "success (H\<lparr>Date_now := clk\<rparr>) x out = success H x out"
  by (simp add: success_def extractResult_def faultText_def split: option.splits)

lemma files_write_sim:
  "calls w = calls w' \<Longrightarrow>
   same_outcome (await_files_write (H\<lparr>Date_now := clk\<rparr>) p x w) (await_files_write H p x w')"
  by (simp add: same_outcome_def await_files_write_def world_defs split: option.splits)

lemma files_read_sim:
  "calls w = calls w' \<Longrightarrow>
   same_outcome (await_files_read (H\<lparr>Date_now := clk\<rparr>) p w) (await_files_read H p w')"
  by (simp add: same_outcome_def await_files_read_def world_defs split: sum.splits)

lemma writeFiles_sim:
  "calls w = calls w' \<Longrightarrow>
   same_outcome (writeFiles (H\<lparr>Date_now := clk\<rparr>) fs w) (writeFiles H fs w')"
proof (induction fs arbitrary: w w')
  case Nil
  then show ?case by (simp add: same_outcome_def)
next
  case (Cons pc rest)
  obtain path content where pc: "pc = (path, content)" by (cases pc)
  obtain a wa where a: "await_files_write (H\<lparr>Date_now := clk\<rparr>) (''/home/user/'' @ path) content w = (a, wa)"
    by (cases "await_files_write (H\<lparr>Date_now := clk\<rparr>) (''/home/user/'' @ path) content w")
  obtain b wb where b: "await_files_write H (''/home/user/'' @ path) content w' = (b, wb)"
    by (cases "await_files_write H (''/home/user/'' @ path) content w'")
  from files_write_sim[OF Cons.prems, where H = H and clk = clk and p = "''/home/user/'' @ path" and x = content] a b
  have ab: "a = b" "calls wa = calls wb" by (simp_all add: same_outcome_def)
  show ?case
  proof (cases b)
    case None
    with ab a b pc Cons.IH[OF ab(2)] show ?thesis by simp
  next
    case (Some e)
    with ab a b pc show ?thesis by (simp add: same_outcome_def)
  qed
qed

lemma readBack_sim:
  "calls w = calls w' \<Longrightarrow>
   same_outcome (readBack (H\<lparr>Date_now := clk\<rparr>) fl acc w) (readBack H fl acc w')"
proof (induction fl arbitrary: acc w w')
  case Nil
  then show ?case by (simp add: same_outcome_def)
next
  case (Cons f rest)
  show ?case
  proof (cases "qualifies f")
    case False
    with Cons.IH[OF Cons.prems] show ?thesis by simp
  next
    case True
    obtain a wa where a: "await_files_read (H\<lparr>Date_now := clk\<rparr>) (''/home/user/'' @ name f) w = (a, wa)"
      by (cases "await_files_read (H\<lparr>Date_now := clk\<rparr>) (''/home/user/'' @ name f) w")
    obtain b wb where b: "await_files_read H (''/home/user/'' @ name f) w' = (b, wb)"
      by (cases "await_files_read H (''/home/user/'' @ name f) w'")
    from files_read_sim[OF Cons.prems, where H = H and clk = clk and p = "''/home/user/'' @ name f"] a b
    have ab: "a = b" "calls wa = calls wb" by (simp_all add: same_outcome_def)
    show ?thesis
    proof (cases b)
      case (Inl e)
      with ab a b True show ?thesis by (simp add: same_outcome_def)
    next
      case (Inr content)
      with ab a b True Cons.IH[OF ab(2)] show ?thesis by simp
    qed
  qed
qed

lemma collectFiles_sim:
  assumes "calls w = calls w'"
  shows "same_outcome (collectFiles (H\<lparr>Date_now := clk\<rparr>) w) (collectFiles H w')"
proof (cases "files_list H (history w') ''/home/user''")
  case (Inl e)
  with assms show ?thesis
    by (simp add: same_outcome_def collectFiles_def await_files_list_def world_defs)
next
  case (Inr fl)
  have "calls (did (FilesList ''/home/user'') (Listed fl) w) =
        calls (did (FilesList ''/home/user'') (Listed fl) w')"
    using assms by (simp add: did_def)
  from readBack_sim[OF this] Inr assms show ?thesis
    by (simp add: collectFiles_def await_files_list_def history_def)
qed

lemma installDependencies_sim:
  "calls w = calls w' \<Longrightarrow>
   same_outcome (installDependencies (H\<lparr>Date_now := clk\<rparr>) deps w) (installDependencies_plain H deps w')"
  by (auto simp: same_outcome_def installDependencies_def installDependencies_plain_def
      await_commands_run_def world_defs Let_def split: option.splits)

lemma runAndCollect_sim:
  assumes "calls w = calls w'"
  shows "same_outcome (runAndCollect (H\<lparr>Date_now := clk\<rparr>) code args t0 w)
           (runAndCollect_plain H code args w')"
proof (cases "runCode H (history w') code ''ts'' (buildEnvVars H args)")
  case (Inl err)
  with assms show ?thesis
    by (simp add: same_outcome_def runAndCollect_def runAndCollect_plain_def buildEnvVars_clock
        await_runCode_def world_defs Let_def)
next
  case (Inr x)
  let ?Hc = "H\<lparr>Date_now := clk\<rparr>"
  let ?e = "buildEnvVars H args"
  define wa where "wa = console_log [Str ''code executed in '',
      Num (clk (Suc (ticks w)) - clk (ticks w)), Str ''ms'']
     (snd (now ?Hc (did (RunCode code ''ts'' ?e) (Ran x) (snd (now ?Hc w)))))"
  define wb where "wb = did (RunCode code ''ts'' ?e) (Ran x) w'"
  have c: "calls wa = calls wb" using assms by (simp add: wa_def wb_def world_defs)
  have A: "fst (runAndCollect ?Hc code args t0 w) = Inr (success H x (fst (collectFiles ?Hc wa)))"
    "calls (snd (runAndCollect ?Hc code args t0 w)) = calls (snd (collectFiles ?Hc wa))"
    using Inr assms
    by (simp_all add: runAndCollect_def buildEnvVars_clock success_clock await_runCode_def
        world_defs Let_def wa_def case_prod_beta)
  have B: "fst (runAndCollect_plain H code args w') = Inr (success H x (fst (collectFiles H wb)))"
    "calls (snd (runAndCollect_plain H code args w')) = calls (snd (collectFiles H wb))"
    using Inr
    by (simp_all add: runAndCollect_plain_def await_runCode_def Let_def wb_def case_prod_beta)
  from collectFiles_sim[OF c, where H = H and clk = clk] A B show ?thesis
    by (simp add: same_outcome_def)
qed

lemma writes_sim:
  assumes "calls w = calls w'"
  shows "same_outcome (case fs of None \<Rightarrow> (None, w) | Some fs' \<Rightarrow> writeFiles (H\<lparr>Date_now := clk\<rparr>) fs' w)
           (case fs of None \<Rightarrow> (None, w') | Some fs' \<Rightarrow> writeFiles H fs' w')"
  using assms writeFiles_sim[OF assms] by (cases fs) (simp_all add: same_outcome_def)

lemma tryBlock_sim:
  assumes "calls w = calls w'"
  shows "fst (tryBlock (H\<lparr>Date_now := clk\<rparr>) code deps fs args t0 w) =
           fst (tryBlock_plain H code deps fs args w') \<and>
         fst (snd (tryBlock (H\<lparr>Date_now := clk\<rparr>) code deps fs args t0 w)) =
           fst (snd (tryBlock_plain H code deps fs args w')) \<and>
         calls (snd (snd (tryBlock (H\<lparr>Date_now := clk\<rparr>) code deps fs args t0 w))) =
           calls (snd (snd (tryBlock_plain H code deps fs args w')))"
proof (cases "Sandbox_create H (history w') 30000")
  case (Some err)
  with assms show ?thesis
    by (simp add: tryBlock_def tryBlock_plain_def await_Sandbox_create_def world_defs Let_def)
next
  case None
  let ?Hc = "H\<lparr>Date_now := clk\<rparr>"
  define w1 where "w1 = console_log [Str ''sandbox created in '',
      Num (clk (Suc (ticks w)) - clk (ticks w)), Str ''ms'']
     (snd (now ?Hc (did (SandboxCreate 30000) Done (snd (now ?Hc w)))))"
  define w1' where "w1' = did (SandboxCreate 30000) Done w'"
  have c1: "calls w1 = calls w1'" using assms by (simp add: w1_def w1'_def world_defs)
  obtain ri w2 where i: "installDependencies ?Hc deps w1 = (ri, w2)"
    by (cases "installDependencies ?Hc deps w1")
  obtain ri' w2' where i': "installDependencies_plain H deps w1' = (ri', w2')"
    by (cases "installDependencies_plain H deps w1'")
  from installDependencies_sim[OF c1, where H = H and clk = clk and deps = deps] i i'
  have si: "ri' = ri" "calls w2 = calls w2'" by (simp_all add: same_outcome_def)
  obtain rw w3 where wr: "(case fs of None \<Rightarrow> (None, w2) | Some fs' \<Rightarrow> writeFiles ?Hc fs' w2) = (rw, w3)"
    by (cases "(case fs of None \<Rightarrow> (None, w2) | Some fs' \<Rightarrow> writeFiles ?Hc fs' w2)")
  obtain rw' w3' where wr': "(case fs of None \<Rightarrow> (None, w2') | Some fs' \<Rightarrow> writeFiles H fs' w2') = (rw', w3')"
    by (cases "(case fs of None \<Rightarrow> (None, w2') | Some fs' \<Rightarrow> writeFiles H fs' w2')")
  from writes_sim[OF si(2), where H = H and clk = clk and fs = fs] wr wr'
  have sw: "rw' = rw" "calls w3 = calls w3'" by (simp_all add: same_outcome_def)
  obtain rr w4 where rc: "runAndCollect ?Hc code args t0 w3 = (rr, w4)"
    by (cases "runAndCollect ?Hc code args t0 w3")
  obtain rr' w4' where rc': "runAndCollect_plain H code args w3' = (rr', w4')"
    by (cases "runAndCollect_plain H code args w3'")
  from runAndCollect_sim[OF sw(2), where H = H and clk = clk and code = code and args = args and ?t0.0 = t0] rc rc'
  have sr: "rr' = rr" "calls w4 = calls w4'" by (simp_all add: same_outcome_def)
  have A: "tryBlock ?Hc code deps fs args t0 w =
      (case ri of
         Some err \<Rightarrow> (Inl err, True, w2)
       | None \<Rightarrow> (case rw of Some err \<Rightarrow> (Inl err, True, w3) | None \<Rightarrow> (rr, True, w4)))"
    using None assms i wr rc
    by (simp add: tryBlock_def await_Sandbox_create_def world_defs Let_def w1_def
        split: option.splits)
  have B: "tryBlock_plain H code deps fs args w' =
      (case ri of
         Some err \<Rightarrow> (Inl err, True, w2')
       | None \<Rightarrow> (case rw of Some err \<Rightarrow> (Inl err, True, w3') | None \<Rightarrow> (rr, True, w4')))"
    using None i' wr' rc' si(1) sw(1) sr(1)
    by (simp add: tryBlock_plain_def await_Sandbox_create_def w1'_def split: option.splits)
  show ?thesis unfolding A B using si(2) sw(2) sr(2)
    by (simp split: option.splits)
qed

lemma finallyBlock_sim:
  "calls w = calls w' \<Longrightarrow>
   same_outcome (finallyBlock (H\<lparr>Date_now := clk\<rparr>) sbx ret w) (finallyBlock H sbx ret w')"
  by (simp add: same_outcome_def finallyBlock_def await_kill_def world_defs split: option.splits)

lemma finallyBlock_result:
  "fst (finallyBlock H sbx ret w) = Inr ret \<or>
   (\<exists>e. fst (finallyBlock H sbx ret w) = Inl e \<and> (\<forall>ret'. fst (finallyBlock H sbx ret' w) = Inl e))"
  by (simp add: finallyBlock_def await_kill_def split: option.splits)

lemma finallyBlock_calls_any: "calls (snd (finallyBlock H sbx ret w)) = calls (snd (finallyBlock H sbx ret' w))"
  by (simp add: finallyBlock_def await_kill_def did_def split: option.splits)

lemma failure_eq_plain:
  "failure err = catchBlock_plain err \<or>
   (failure err = \<lparr>stdout = [], stderr = ''unknown error'', files = None, result = None,
                   error = Some ''unknown error''\<rparr> \<and>
    catchBlock_plain err = \<lparr>stdout = [], stderr = ''Unknown error'', files = None, result = None,
                   error = Some ''Unknown error''\<rparr>)"
  by (cases err) (auto simp: failure_def catchBlock_plain_def or_default_def split: option.splits)

text \<open>
  C9, as amended: whatever the clock reads, the instrumented version makes the same
  SDK calls with the same answers as the other version, and it returns the same
  result or rejects with the same exception, with one exception: for a caught
  exception without a message the instrumented version reports
  \<^verbatim>\<open>"unknown error"\<close> where the other version reports \<^verbatim>\<open>"Unknown error"\<close>. With
  \<open>clk = Date_now H\<close> the host on the left is \<open>H\<close> itself.
\<close>

theorem versions_agree_up_to_fallback_text:
  "calls (snd (executeTypeScript (H\<lparr>Date_now := clk\<rparr>) code deps fs args)) =
     calls (snd (executeTypeScript_plain H code deps fs args)) \<and>
   (fst (executeTypeScript (H\<lparr>Date_now := clk\<rparr>) code deps fs args) =
      fst (executeTypeScript_plain H code deps fs args) \<or>
    fst (executeTypeScript (H\<lparr>Date_now := clk\<rparr>) code deps fs args) =
      Inr \<lparr>stdout = [], stderr = ''unknown error'', files = None, result = None,
           error = Some ''unknown error''\<rparr> \<and>
    fst (executeTypeScript_plain H code deps fs args) =
      Inr \<lparr>stdout = [], stderr = ''Unknown error'', files = None, result = None,
           error = Some ''Unknown error''\<rparr>)"
proof -
  let ?Hc = "H\<lparr>Date_now := clk\<rparr>"
  define wa where "wa =
     console_log [Str (''========================'' @ [CHR 0x0A])]
      (console_log [Str ''args:'',
                (case args of None \<Rightarrow> Str ''none''
                 | Some a \<Rightarrow> if truthy (Some a) then Val a else Str ''none'')]
       (console_log [Str ''files:'',
                (case fs of None \<Rightarrow> Str ''none'' | Some fs \<Rightarrow> Strs (map fst fs))]
        (console_log [Str ''dependencies:'',
                (case deps of None \<Rightarrow> Str ''none'' | Some ds \<Rightarrow> Strs ds)]
         (console_log [Str (CHR 0x0A # ''=== exec_ts call ==='')] (snd (now ?Hc start))))))"
  define wb where "wb =
     console_log [Str (''========================'' @ [CHR 0x0A])]
      (console_log [Str (''Code:'' @ [CHR 0x0A]), Str code]
       (console_log [Str ''Args:'',
                (case args of None \<Rightarrow> Str ''none''
                 | Some a \<Rightarrow> if truthy (Some a) then Val a else Str ''none'')]
        (console_log [Str ''Files:'',
                (case fs of None \<Rightarrow> Str ''none'' | Some fs \<Rightarrow> Strs (map fst fs))]
         (console_log [Str ''Dependencies:'',
                (case deps of None \<Rightarrow> Str ''none'' | Some ds \<Rightarrow> Strs ds)]
          (console_log [Str (CHR 0x0A # ''=== EXEC_TS TOOL CALL ==='')] start)))))"
  define t0 where "t0 = fst (now ?Hc start)"
  have c0: "calls wa = calls wb" by (simp add: wa_def wb_def world_defs start_def)
  obtain r sbx w1 where ta: "tryBlock ?Hc code deps fs args t0 wa = (r, sbx, w1)"
    by (cases "tryBlock ?Hc code deps fs args t0 wa")
  obtain r' sbx' w1' where tb: "tryBlock_plain H code deps fs args wb = (r', sbx', w1')"
    by (cases "tryBlock_plain H code deps fs args wb")
  from tryBlock_sim[OF c0, where H = H and clk = clk and code = code and deps = deps
      and fs = fs and args = args and ?t0.0 = t0] ta tb
  have s: "r' = r" "sbx' = sbx" "calls w1 = calls w1'" by simp_all
  have A: "executeTypeScript ?Hc code deps fs args =
      (case r of Inr ret \<Rightarrow> finallyBlock ?Hc sbx ret w1
       | Inl err \<Rightarrow> (case catchBlock ?Hc t0 err w1 of (ret, w) \<Rightarrow> finallyBlock ?Hc sbx ret w))"
    using ta unfolding wa_def t0_def
    by (simp add: executeTypeScript_def Let_def case_prod_beta split: sum.splits)
  have B: "executeTypeScript_plain H code deps fs args =
      (case r of Inr ret \<Rightarrow> finallyBlock H sbx ret w1'
       | Inl err \<Rightarrow> finallyBlock H sbx (catchBlock_plain err) w1')"
    using tb s(1,2) unfolding wb_def
    by (simp add: executeTypeScript_plain_def Let_def case_prod_beta split: sum.splits)
  show ?thesis
  proof (cases r)
    case (Inr ret)
    from finallyBlock_sim[OF s(3), where H = H and clk = clk and sbx = sbx and ret = ret]
    show ?thesis unfolding A B Inr by (simp add: same_outcome_def)
  next
    case (Inl err)
    obtain w2 where w2: "catchBlock ?Hc t0 err w1 = (failure err, w2)" "calls w2 = calls w1"
      by (simp add: catchBlock_def world_defs Let_def)
    have c2: "calls w2 = calls w1'" using w2(2) s(3) by simp
    from finallyBlock_sim[OF c2, where H = H and clk = clk and sbx = sbx and ret = "failure err"]
    have f: "fst (finallyBlock ?Hc sbx (failure err) w2) = fst (finallyBlock H sbx (failure err) w1')"
      "calls (snd (finallyBlock ?Hc sbx (failure err) w2)) = calls (snd (finallyBlock H sbx (failure err) w1'))"
      by (simp_all add: same_outcome_def)
    have 1: "calls (snd (executeTypeScript ?Hc code deps fs args)) =
        calls (snd (executeTypeScript_plain H code deps fs args))"
      unfolding A B Inl using w2(1) f(2) finallyBlock_calls_any[of H sbx "failure err" w1' "catchBlock_plain err"]
      by simp
    have ea: "fst (executeTypeScript ?Hc code deps fs args) = fst (finallyBlock H sbx (failure err) w1')"
      unfolding A Inl using w2(1) f(1) by simp
    have eb: "fst (executeTypeScript_plain H code deps fs args) = fst (finallyBlock H sbx (catchBlock_plain err) w1')"
      unfolding B Inl by simp
    from finallyBlock_result[of H sbx "failure err" w1'] show ?thesis
    proof
      assume "\<exists>e. fst (finallyBlock H sbx (failure err) w1') = Inl e \<and>
          (\<forall>ret'. fst (finallyBlock H sbx ret' w1') = Inl e)"
      then have "fst (finallyBlock H sbx (failure err) w1') = fst (finallyBlock H sbx (catchBlock_plain err) w1')"
        by auto
      with 1 ea eb show ?thesis by simp
    next
      assume a: "fst (finallyBlock H sbx (failure err) w1') = Inr (failure err)"
      then have b: "fst (finallyBlock H sbx (catchBlock_plain err) w1') = Inr (catchBlock_plain err)"
        by (auto simp: finallyBlock_def await_kill_def split: option.splits if_splits)
      from failure_eq_plain[of err] 1 ea eb a b show ?thesis by auto
    qed
  qed
qed

text \<open>
  On the concrete host and with a clock that stands still, both versions return the
  same result.
\<close>

theorem versions_agree_up_to_fallback_text_witness:
  "fst (executeTypeScript (node\<lparr>Date_now := (\<lambda>k. 0)\<rparr>) ''code'' None None None) =
     fst (executeTypeScript_plain node ''code'' None None None) \<and>
   fst (executeTypeScript_plain node ''code'' None None None) =
     Inr \<lparr>stdout = ''log line'' @ [CHR 0x0A] @ ''{\"ok\":true,\"data\":5}'' @ [CHR 0x0A] @ ''trailing'',
          stderr = [], files = Some [(''report.csv'', ''a,b'')],
          result = Some (JObject [(''ok'', JBool True), (''data'', JNumber 5)]), error = None\<rparr>"
proof -
  have p: "fst (executeTypeScript_plain node ''code'' None None None) =
     Inr \<lparr>stdout = ''log line'' @ [CHR 0x0A] @ ''{\"ok\":true,\"data\":5}'' @ [CHR 0x0A] @ ''trailing'',
          stderr = [], files = Some [(''report.csv'', ''a,b'')],
          result = Some (JObject [(''ok'', JBool True), (''data'', JNumber 5)]), error = None\<rparr>"
    by (simp add: plain_eval run_eval host_eval json_eval)
  from versions_agree_up_to_fallback_text[where H = node and clk = "\<lambda>k. 0" and code = "''code''"
      and deps = None and fs = None and args = None] p
  show ?thesis by auto
qed

text \<open>
  C9 as stated fails: when \<^verbatim>\<open>Sandbox.create\<close> raises an exception without a message,
  the two versions return different texts.
\<close>

theorem versions_differ_in_fallback_text:
  "fst (executeTypeScript nameless ''code'' None None None) =
     Inr \<lparr>stdout = [], stderr = ''unknown error'', files = None, result = None,
          error = Some ''unknown error''\<rparr> \<and>
   fst (executeTypeScript_plain nameless ''code'' None None None) =
     Inr \<lparr>stdout = [], stderr = ''Unknown error'', files = None, result = None,
          error = Some ''Unknown error''\<rparr> \<and>
   fst (executeTypeScript nameless ''code'' None None None) \<noteq>
     fst (executeTypeScript_plain nameless ''code'' None None None)"
  by (simp add: plain_eval run_eval host_eval)

end
